theory Spec2Isabelle
  imports Complex_Main
begin

section \<open>The pitch-detection service of Sing2Notes\<close>

text \<open>
  This theory embeds the class \<open>PitchDetection\<close> (pitchDetection.js) and verifies the
  statements of the specification about it. Every definition follows one method of the
  class; a loop of the source is a recursive function or a \<open>foldl\<close> over the index range
  the loop runs through.

  Numbers. JavaScript numbers are IEEE doubles, and a \<open>Float32Array\<close> holds IEEE singles.
  The samples and everything the pitch estimator computes from them (the Hann window, the
  windowed segment, the products and sums of the autocorrelation, the stored correlations
  that the peak search compares) are values of \<open>jsnum\<close>: a real number, an infinity or
  \<open>NaN\<close>. Every arithmetic operation on them rounds its exact result to a double, every
  store into a \<open>Float32Array\<close> rounds to a single, both to the nearest value with ties to
  the even significand, with gradual underflow, and with overflow to an infinity. The two
  zeros are not distinguished: no operation of the source tells them apart. \<open>Math.cos\<close>,
  which ECMAScript only requires to approximate the cosine, is taken to be correctly
  rounded. The quotient \<open>startTime / timeWindow\<close> that selects the chord window of a note is
  rounded to a double in the same way.

  Times and frequencies are real numbers: the quotient \<open>sampleRate / maxIndex\<close>, the
  start and end times \<open>i * segmentDuration * 0.5\<close> and \<open>startTime + segmentDuration\<close>, the
  durations, and the logarithms and powers of \<open>frequencyToNote\<close> are the exact values,
  which the source rounds to doubles.
\<close>

subsection \<open>JavaScript numbers\<close>

datatype jsnum = NaN | NegInf | Num real | PosInf

text \<open>Rounding a real to the nearest integer, a tie to the even one.\<close>

definition nearestEven :: "real \<Rightarrow> int" where
  "nearestEven m =
     (let f = \<lfloor>m\<rfloor>; d = m - of_int f
      in if d < 1 / 2 then f else if 1 / 2 < d then f + 1 else if even f then f else f + 1)"

text \<open>Rounding to a binary floating-point format with a significand of \<open>p\<close> bits and the
  least exponent \<open>emin\<close>: with \<open>e\<close> the exponent of the binade of \<open>x\<close>, but at least \<open>emin\<close>
  (below \<open>2 ^ emin\<close> the numbers are subnormal), the result is the nearest multiple of
  \<open>2 ^ (e - p + 1)\<close>.\<close>

definition rounded :: "nat \<Rightarrow> int \<Rightarrow> real \<Rightarrow> real" where
  "rounded p emin x =
     (if x = 0 then 0
      else (let e = max \<lfloor>log 2 \<bar>x\<bar>\<rfloor> emin;
                q = 2 powr of_int (e - int p + 1)
            in sgn x * (of_int (nearestEven (\<bar>x\<bar> / q)) * q)))"

text \<open>A rounded result of magnitude \<open>2 ^ (emax + 1)\<close> or more overflows.\<close>

definition toFormat :: "nat \<Rightarrow> int \<Rightarrow> int \<Rightarrow> real \<Rightarrow> jsnum" where
  "toFormat p emin emax x =
     (let r = rounded p emin x
      in if 2 powr of_int (emax + 1) \<le> \<bar>r\<bar> then (if 0 < r then PosInf else NegInf) else Num r)"

definition toDouble :: "real \<Rightarrow> jsnum" where
  "toDouble x = toFormat 53 (- 1022) 1023 x"

definition toFloat32 :: "real \<Rightarrow> jsnum" where
  "toFloat32 x = toFormat 24 (- 126) 127 x"

text \<open>The assignment \<open>a[i] = x\<close> to a \<open>Float32Array\<close>.\<close>

fun storeFloat32 :: "jsnum \<Rightarrow> jsnum" where
  "storeFloat32 (Num a) = toFloat32 a"
| "storeFloat32 x = x"

text \<open>The operators \<open>+\<close>, \<open>-\<close> and \<open>*\<close> on numbers.\<close>

fun jsadd :: "jsnum \<Rightarrow> jsnum \<Rightarrow> jsnum" where
  "jsadd (Num a) (Num b) = toDouble (a + b)"
| "jsadd NaN y = NaN"
| "jsadd x NaN = NaN"
| "jsadd PosInf NegInf = NaN"
| "jsadd NegInf PosInf = NaN"
| "jsadd PosInf y = PosInf"
| "jsadd x PosInf = PosInf"
| "jsadd NegInf y = NegInf"
| "jsadd x NegInf = NegInf"

fun jsneg :: "jsnum \<Rightarrow> jsnum" where
  "jsneg (Num a) = Num (- a)"
| "jsneg PosInf = NegInf"
| "jsneg NegInf = PosInf"
| "jsneg NaN = NaN"

definition jssub :: "jsnum \<Rightarrow> jsnum \<Rightarrow> jsnum" where
  "jssub x y = jsadd x (jsneg y)"

fun signOf :: "jsnum \<Rightarrow> int" where
  "signOf (Num a) = (if a = 0 then 0 else if 0 < a then 1 else - 1)"
| "signOf PosInf = 1"
| "signOf NegInf = - 1"
| "signOf NaN = 0"

fun jsmul :: "jsnum \<Rightarrow> jsnum \<Rightarrow> jsnum" where
  "jsmul (Num a) (Num b) = toDouble (a * b)"
| "jsmul NaN y = NaN"
| "jsmul x NaN = NaN"
| "jsmul x y =
     (if signOf x * signOf y = 0 then NaN
      else if 0 < signOf x * signOf y then PosInf else NegInf)"

text \<open>The division of a number by a count \<open>n\<close> (a number of channels, or a length less
  one), which is a nonnegative integer.\<close>

fun jsdivCount :: "jsnum \<Rightarrow> nat \<Rightarrow> jsnum" where
  "jsdivCount (Num a) n =
     (if n = 0 then (if a = 0 then NaN else if 0 < a then PosInf else NegInf)
      else toDouble (a / real n))"
| "jsdivCount x n = x"

fun jscos :: "jsnum \<Rightarrow> jsnum" where
  "jscos (Num a) = toDouble (cos a)"
| "jscos x = NaN"

text \<open>The comparison \<open>x > y\<close>: false when either side is \<open>NaN\<close>.\<close>

fun jsgt :: "jsnum \<Rightarrow> jsnum \<Rightarrow> bool" where
  "jsgt (Num a) (Num b) = (b < a)"
| "jsgt NaN y = False"
| "jsgt x NaN = False"
| "jsgt x PosInf = False"
| "jsgt PosInf y = True"
| "jsgt NegInf y = False"
| "jsgt x NegInf = True"

text \<open>\<open>a[i]\<close> on a typed array: \<open>undefined\<close> past the end, which every use below feeds
  into arithmetic or a comparison, where it behaves as \<open>NaN\<close>.\<close>

definition elemAt :: "jsnum list \<Rightarrow> nat \<Rightarrow> jsnum" where
  "elemAt xs i = (if i < length xs then xs ! i else NaN)"

subsection \<open>Integers, arrays and strings\<close>

text \<open>The remainder operator \<open>%\<close> on integers truncates towards zero: the result has the
  sign of the dividend.\<close>

definition jsrem :: "int \<Rightarrow> int \<Rightarrow> int" where
  "jsrem a b = sgn a * (\<bar>a\<bar> mod \<bar>b\<bar>)"

text \<open>\<open>Array.prototype.indexOf\<close>: the first position of the element, or -1.\<close>

fun indexOf :: "'a list \<Rightarrow> 'a \<Rightarrow> int" where
  "indexOf [] x = -1"
| "indexOf (y # ys) x =
     (if y = x then 0 else (let r = indexOf ys x in if r = -1 then -1 else r + 1))"

text \<open>\<open>Array.from(new Set(xs))\<close>: the distinct elements in the order of their first
  occurrence (\<open>remdups\<close> would keep the last occurrence instead).\<close>

fun uniqueInOrder :: "'a list \<Rightarrow> 'a list" where
  "uniqueInOrder [] = []"
| "uniqueInOrder (x # xs) = x # uniqueInOrder (filter (\<lambda>y. y \<noteq> x) xs)"

text \<open>\<open>String.prototype.replace\<close> with a string pattern of one character: only the first
  occurrence is replaced.\<close>

fun replaceFirst :: "char \<Rightarrow> string \<Rightarrow> string \<Rightarrow> string" where
  "replaceFirst c r [] = []"
| "replaceFirst c r (x # xs) = (if x = c then r @ xs else x # replaceFirst c r xs)"

text \<open>The sharp sign U+266F is outside ASCII; a \<open>string\<close> is a list of bytes, so it is
  written as its three UTF-8 bytes.\<close>

definition sharpSign :: string where
  "sharpSign = [CHR 0xE2, CHR 0x99, CHR 0xAF]"

subsection \<open>The constructor: tables and settings\<close>

text \<open>The tables \<open>noteFrequencies\<close> and \<open>octaves\<close> of the constructor are read by no
  method and are left out.\<close>

definition chordDefinitions :: "(string \<times> int list) list" where
  "chordDefinitions =
    [(''Major'', [0, 4, 7]),
     (''Minor'', [0, 3, 7]),
     (''Diminished'', [0, 3, 6]),
     (''Augmented'', [0, 4, 8]),
     (''Major 7'', [0, 4, 7, 11]),
     (''Dominant 7'', [0, 4, 7, 10]),
     (''Minor 7'', [0, 3, 7, 10]),
     (''Sus4'', [0, 5, 7]),
     (''Sus2'', [0, 2, 7])]"

definition sampleRate :: real where "sampleRate = 44100"
definition bufferSize :: nat where "bufferSize = 4096"
definition minFrequency :: real where "minFrequency = 80"
definition maxFrequency :: real where "maxFrequency = 1000"

subsection \<open>Data\<close>

text \<open>The input: the per-channel sample arrays (\<open>getChannelData c\<close> is \<open>channelData ! c\<close>,
  \<open>numberOfChannels\<close> their number) and the declared frame count \<open>length\<close>. A Web Audio
  buffer has all arrays of that length; the record does not force it, so that a malformed
  buffer is an input too.\<close>

record audioBuffer =
  channelData :: "jsnum list list"
  bufferLength :: nat

definition numberOfChannels :: "audioBuffer \<Rightarrow> nat" where
  "numberOfChannels b = length (channelData b)"

record musicalNote =
  name :: string
  octave :: int
  noteFrequency :: real
  cents :: int

record pitch =
  frequency :: real
  pitchNote :: musicalNote
  startTime :: real
  endTime :: real

record simpleNote =
  simpleName :: string
  simpleOctave :: int
  simpleDuration :: real
  simpleStart :: real

record chord =
  root :: string
  chordType :: string
  chordNotes :: "string list"
  chordStart :: real
  chordEnd :: real
  chordDuration :: real

record sheetNote =
  sheetPitch :: string
  sheetOctave :: int
  sheetDuration :: string
  sheetStart :: real

record sheetMusic =
  sheetNotes :: "sheetNote list"
  timeSignature :: "nat \<times> nat"
  clef :: string

record transcriptionResult =
  simpleNotes :: "simpleNote list"
  complexChords :: "chord list"
  sheetMusicOf :: sheetMusic
  rawPitchData :: "pitch list"

text \<open>What \<open>analyzeAudio\<close> can throw: its \<open>catch\<close> logs and rethrows whatever the body
  raised.\<close>

datatype error = Thrown string

subsection \<open>convertToMono\<close>

text \<open>With one channel the array of that channel is returned as it is. Otherwise each
  frame is the sum of the channels, divided by their number and stored in a new
  \<open>Float32Array\<close>; with no channel the sum is still 0, and \<open>0 / 0\<close> is \<open>NaN\<close>.\<close>

definition convertToMono :: "audioBuffer \<Rightarrow> jsnum list" where
  "convertToMono b =
     (let numChannels = numberOfChannels b; len = bufferLength b
      in if numChannels = 1 then channelData b ! 0
         else map (\<lambda>i. storeFloat32 (jsdivCount
                    (foldl (\<lambda>sum ch. jsadd sum (elemAt ch i)) (Num 0) (channelData b))
                    numChannels))
                [0..<len])"

subsection \<open>segmentAudio\<close>

text \<open>The loop \<open>for (i = 0; i < audioData.length - segmentLength; i += overlap)\<close>; the
  difference may be negative, so the test is on integers.\<close>

function segmentAudioFrom :: "nat \<Rightarrow> jsnum list \<Rightarrow> jsnum list list" where
  "segmentAudioFrom i audioData =
     (if int i < int (length audioData) - int bufferSize
      then take bufferSize (drop i audioData)
             # segmentAudioFrom (i + bufferSize div 2) audioData
      else [])"
  by pat_completeness auto
termination
  by (relation "measure (\<lambda>(i, audioData). length audioData - i)")
     (auto simp: bufferSize_def)

declare segmentAudioFrom.simps [simp del]

definition segmentAudio :: "jsnum list \<Rightarrow> jsnum list list" where
  "segmentAudio audioData = segmentAudioFrom 0 audioData"

subsection \<open>applyHannWindow and detectPitchAutocorrelation\<close>

text \<open>\<open>Math.PI\<close>, the double nearest to \<open>\<pi>\<close>.\<close>

definition mathPI :: real where
  "mathPI = 884279719003555 / 281474976710656"

text \<open>The window value \<open>0.5 * (1 - Math.cos(2 * Math.PI * i / (buffer.length - 1)))\<close>,
  operation by operation; for a buffer of one sample the quotient is \<open>0 / 0\<close>.\<close>

definition windowValue :: "nat \<Rightarrow> nat \<Rightarrow> jsnum" where
  "windowValue n i =
     jsmul (Num (1 / 2))
       (jssub (Num 1)
          (jscos (jsdivCount (jsmul (jsmul (Num 2) (Num mathPI)) (Num (real i))) (n - 1))))"

text \<open>\<open>windowedBuffer[i] = buffer[i] * windowValue\<close>, stored in a \<open>Float32Array\<close>.\<close>

definition applyHannWindow :: "jsnum list \<Rightarrow> jsnum list" where
  "applyHannWindow buffer =
     map (\<lambda>i. storeFloat32 (jsmul (buffer ! i) (windowValue (length buffer) i)))
       [0..<length buffer]"

text \<open>One entry of the \<open>Float32Array\<close> \<open>autocorrelation\<close>: the inner loop over \<open>i\<close>, which
  adds up the products in a double, and the store of the sum.\<close>

definition autocorrelationAt :: "jsnum list \<Rightarrow> nat \<Rightarrow> jsnum" where
  "autocorrelationAt windowedBuffer lag =
     storeFloat32
       (foldl (\<lambda>sum i. jsadd sum (jsmul (elemAt windowedBuffer i) (elemAt windowedBuffer (i + lag))))
          (Num 0) [0..<bufferSize - lag])"

definition autocorrelation :: "jsnum list \<Rightarrow> jsnum list" where
  "autocorrelation windowedBuffer = map (autocorrelationAt windowedBuffer) [0..<bufferSize]"

definition minSamples :: nat where
  "minSamples = nat \<lfloor>sampleRate / maxFrequency\<rfloor>"

definition maxSamples :: nat where
  "maxSamples = nat \<lceil>sampleRate / minFrequency\<rceil>"

text \<open>One round of the peak search, on the pair of \<open>maxCorrelation\<close> and \<open>maxIndex\<close>.\<close>

fun peakStep :: "jsnum list \<Rightarrow> jsnum \<times> int \<Rightarrow> nat \<Rightarrow> jsnum \<times> int" where
  "peakStep ac (maxCorrelation, maxIndex) i =
     (if jsgt (elemAt ac i) maxCorrelation then (elemAt ac i, int i)
      else (maxCorrelation, maxIndex))"

definition peakSearch :: "jsnum list \<Rightarrow> jsnum \<times> int" where
  "peakSearch ac = foldl (peakStep ac) (Num 0, -1) [minSamples..<maxSamples]"

definition detectPitchAutocorrelation :: "jsnum list \<Rightarrow> real" where
  "detectPitchAutocorrelation buffer =
     (let windowedBuffer = applyHannWindow buffer;
          ac = autocorrelation windowedBuffer;
          maxIndex = snd (peakSearch ac)
      in if maxIndex > 0 then sampleRate / real_of_int maxIndex else 0)"

subsection \<open>frequencyToNote\<close>

definition noteNames :: "string list" where
  "noteNames = [''A'', ''A#'', ''B'', ''C'', ''C#'', ''D'', ''D#'', ''E'', ''F'', ''F#'', ''G'', ''G#'']"

text \<open>The source calls the function only with \<open>80 \<le> frequency \<le> 1000\<close>; for a frequency
  that is not positive JavaScript computes with \<open>NaN\<close> and \<open>-Infinity\<close>, which is not
  modelled: every statement below is about a positive frequency.\<close>

definition frequencyToNote :: "real \<Rightarrow> musicalNote" where
  "frequencyToNote f =
     (let a4 = 440;
          semitoneRatio = 2 powr (1 / 12);
          semitonesFromA4 = round (12 * log 2 (f / a4));
          closestNoteFreq = a4 * semitoneRatio powr (real_of_int semitonesFromA4);
          centsDev = round (1200 * log 2 (f / closestNoteFreq));
          noteIndex0 = jsrem (semitonesFromA4 + 9) 12;
          noteIndex = (if noteIndex0 < 0 then noteIndex0 + 12 else noteIndex0);
          octave0 = 4 + (semitonesFromA4 + 9) div 12;
          octave1 = (if noteIndex < 3 then octave0 - 1 else octave0)
      in \<lparr>name = noteNames ! nat noteIndex, octave = octave1,
          noteFrequency = f, cents = centsDev\<rparr>)"

subsection \<open>consolidateNotes\<close>

text \<open>\<open>consolidateFrom currentNote rest\<close> is the loop from the moment \<open>currentNote\<close> is the
  running note and \<open>rest\<close> are the notes still to read; what it returns is what the loop
  pushes from then on, the last note included.\<close>

fun consolidateFrom :: "pitch \<Rightarrow> pitch list \<Rightarrow> pitch list" where
  "consolidateFrom currentNote [] = [currentNote]"
| "consolidateFrom currentNote (n # rest) =
     (if name (pitchNote n) = name (pitchNote currentNote) \<and>
         octave (pitchNote n) = octave (pitchNote currentNote) \<and>
         \<bar>startTime n - endTime currentNote\<bar> < 0.05
      then consolidateFrom (currentNote\<lparr>endTime := endTime n\<rparr>) rest
      else currentNote # consolidateFrom n rest)"

fun consolidateNotes :: "pitch list \<Rightarrow> pitch list" where
  "consolidateNotes [] = []"
| "consolidateNotes (n # rest) = consolidateFrom n rest"

subsection \<open>detectPitches\<close>

definition segmentDuration :: real where
  "segmentDuration = real bufferSize / sampleRate"

text \<open>The loop over the segments, from index \<open>i\<close> on: the array \<open>pitches\<close>.\<close>

fun pitchesFrom :: "nat \<Rightarrow> jsnum list list \<Rightarrow> pitch list" where
  "pitchesFrom i [] = []"
| "pitchesFrom i (segment # rest) =
     (let start = real i * segmentDuration * 0.5;
          end = start + segmentDuration;
          freq = detectPitchAutocorrelation segment
      in (if freq \<ge> minFrequency \<and> freq \<le> maxFrequency
          then [\<lparr>frequency = freq, pitchNote = frequencyToNote freq,
                 startTime = start, endTime = end\<rparr>]
          else [])
         @ pitchesFrom (i + 1) rest)"

definition detectPitches :: "jsnum list list \<Rightarrow> pitch list" where
  "detectPitches segments = consolidateNotes (pitchesFrom 0 segments)"

subsection \<open>generateSimpleNotes and generateSheetMusic\<close>

definition generateSimpleNotes :: "pitch list \<Rightarrow> simpleNote list" where
  "generateSimpleNotes pitchData =
     map (\<lambda>p. \<lparr>simpleName = replaceFirst (CHR ''#'') sharpSign (name (pitchNote p)),
               simpleOctave = octave (pitchNote p),
               simpleDuration = endTime p - startTime p,
               simpleStart = startTime p\<rparr>) pitchData"

definition notationType :: "real \<Rightarrow> string" where
  "notationType durationMs =
     (if durationMs \<ge> 1000 then ''whole''
      else if durationMs \<ge> 500 then ''half''
      else if durationMs \<ge> 250 then ''quarter''
      else if durationMs \<ge> 125 then ''eighth''
      else ''sixteenth'')"

definition generateSheetMusic :: "pitch list \<Rightarrow> sheetMusic" where
  "generateSheetMusic pitchData =
     \<lparr>sheetNotes =
        map (\<lambda>p. \<lparr>sheetPitch = name (pitchNote p),
                  sheetOctave = octave (pitchNote p),
                  sheetDuration = notationType ((endTime p - startTime p) * 1000),
                  sheetStart = startTime p\<rparr>) pitchData,
      timeSignature = (4, 4),
      clef = ''treble''\<rparr>"

subsection \<open>identifyChord\<close>

definition calculateInterval :: "string \<Rightarrow> string \<Rightarrow> int" where
  "calculateInterval rootNote noteName =
     (let notes = [''C'', ''C#'', ''D'', ''D#'', ''E'', ''F'', ''F#'', ''G'', ''G#'', ''A'', ''A#'', ''B''];
          rootIndex = indexOf notes rootNote;
          noteIndex = indexOf notes noteName
      in if rootIndex = -1 \<or> noteIndex = -1 then 0
         else (let interval = jsrem (noteIndex - rootIndex) 12
               in if interval < 0 then interval + 12 else interval))"

definition intervalsMatchChord :: "int list \<Rightarrow> int list \<Rightarrow> bool" where
  "intervalsMatchChord detectedIntervals chordIntervals =
     (let matchCount = length (filter (\<lambda>interval. interval \<in> set detectedIntervals)
                                 chordIntervals);
          matchRatio = real matchCount / real (length chordIntervals)
      in matchCount \<ge> 3 \<and> matchRatio \<ge> 0.75)"

text \<open>The inner loop over the entries of \<open>chordDefinitions\<close>, in the order of the table.\<close>

fun firstChordType :: "int list \<Rightarrow> (string \<times> int list) list \<Rightarrow> string option" where
  "firstChordType intervals [] = None"
| "firstChordType intervals ((ctype, chordIntervals) # defs) =
     (if intervalsMatchChord intervals chordIntervals then Some ctype
      else firstChordType intervals defs)"

text \<open>The outer loop over the candidate roots; the result is the pair of \<open>root\<close> and
  \<open>type\<close>, \<open>None\<close> is \<open>null\<close>.\<close>

fun identifyFrom :: "string list \<Rightarrow> string list \<Rightarrow> (string \<times> string) option" where
  "identifyFrom names [] = None"
| "identifyFrom names (rootNote # roots) =
     (let intervals = sort (map (calculateInterval rootNote) names)
      in case firstChordType intervals chordDefinitions of
           Some ctype \<Rightarrow> Some (rootNote, ctype)
         | None \<Rightarrow> identifyFrom names roots)"

definition identifyChord :: "string list \<Rightarrow> (string \<times> string) option" where
  "identifyChord names = (if length names < 2 then None else identifyFrom names names)"

subsection \<open>detectChords\<close>

text \<open>The constant \<open>timeWindow = 0.2\<close>: the double nearest to 0.2.\<close>

definition timeWindow :: real where
  "timeWindow = 3602879701896397 / 18014398509481984"

text \<open>The window key \<open>Math.floor(pitch.startTime / timeWindow)\<close> of a note that starts at
  time \<open>t\<close>: the floor of the quotient rounded to a double. The key is written as an
  integer; the keys \<open>Infinity\<close> and \<open>-Infinity\<close> of an overflowing quotient are written as
  \<open>2 ^ 1024\<close> and \<open>- (2 ^ 1024)\<close>, above and below the floor of every double. A quotient of
  two reals is never \<open>NaN\<close>.\<close>

definition timeKey :: "real \<Rightarrow> int" where
  "timeKey t =
     (case toDouble (t / timeWindow) of
        Num q \<Rightarrow> \<lfloor>q\<rfloor>
      | PosInf \<Rightarrow> 2 ^ 1024
      | NegInf \<Rightarrow> - (2 ^ 1024)
      | NaN \<Rightarrow> 0)"

text \<open>The object \<open>timeWindows\<close>: its properties in the order they were created, each with
  its array. \<open>addToWindow\<close> is one round of the \<open>forEach\<close> that fills it.\<close>

fun addToWindow :: "int \<Rightarrow> pitch \<Rightarrow> (int \<times> pitch list) list \<Rightarrow> (int \<times> pitch list) list" where
  "addToWindow k p [] = [(k, [p])]"
| "addToWindow k p ((k', ps) # tw) =
     (if k' = k then (k', ps @ [p]) # tw else (k', ps) # addToWindow k p tw)"

definition groupByWindow :: "pitch list \<Rightarrow> (int \<times> pitch list) list" where
  "groupByWindow pitchData =
     foldl (\<lambda>tw p. addToWindow (timeKey (startTime p)) p tw) [] pitchData"

text \<open>\<open>Object.keys\<close> lists the keys that are array indices (integers from 0 to
  \<open>2^32 - 2\<close>) first, in ascending order, and then the other keys in the order of their
  creation.\<close>

definition isArrayIndex :: "int \<Rightarrow> bool" where
  "isArrayIndex k = (0 \<le> k \<and> k < 2 ^ 32 - 1)"

definition objectKeys :: "(int \<times> 'a) list \<Rightarrow> int list" where
  "objectKeys obj =
     (let ks = map fst obj
      in sort (filter isArrayIndex ks) @ filter (\<lambda>k. \<not> isArrayIndex k) ks)"

text \<open>The body of the second \<open>forEach\<close>: the chords one window contributes (one or none).
  \<open>Math.min\<close> and \<open>Math.max\<close> are applied to at least two numbers.\<close>

definition chordOfWindow :: "pitch list \<Rightarrow> chord list" where
  "chordOfWindow notes =
     (if length notes \<ge> 2
      then (let start = Min (set (map startTime notes));
                end = Max (set (map endTime notes));
                uniqueNotes = uniqueInOrder (map (\<lambda>n. name (pitchNote n)) notes)
            in case identifyChord uniqueNotes of
                 Some (r, t) \<Rightarrow>
                   [\<lparr>root = r, chordType = t, chordNotes = uniqueNotes,
                     chordStart = start, chordEnd = end, chordDuration = end - start\<rparr>]
               | None \<Rightarrow> [])
      else [])"

definition detectChords :: "pitch list \<Rightarrow> chord list" where
  "detectChords pitchData =
     (let timeWindows = groupByWindow pitchData
      in concat (map (\<lambda>windowKey. case map_of timeWindows windowKey of
                                     Some notes \<Rightarrow> chordOfWindow notes
                                   | None \<Rightarrow> [])
                   (objectKeys timeWindows)))"

subsection \<open>convertToMusicalNotation and analyzeAudio\<close>

definition convertToMusicalNotation :: "pitch list \<Rightarrow> transcriptionResult" where
  "convertToMusicalNotation pitchData =
     \<lparr>simpleNotes = generateSimpleNotes pitchData,
      complexChords = detectChords pitchData,
      sheetMusicOf = generateSheetMusic pitchData,
      rawPitchData = pitchData\<rparr>"

text \<open>No statement of the body throws on a buffer of this model (a missing sample is
  read as \<open>undefined\<close>, not refused), so the \<open>catch\<close> branch is never taken and the result
  is always \<open>Inr\<close>.\<close>

definition analyzeAudio :: "audioBuffer \<Rightarrow> error + transcriptionResult" where
  "analyzeAudio audioBuffer =
     (let monoAudio = convertToMono audioBuffer;
          segments = segmentAudio monoAudio;
          pitchData = detectPitches segments
      in Inr (convertToMusicalNotation pitchData))"

section \<open>Notions used in the statements\<close>

text \<open>The test of \<open>consolidateNotes\<close> that extends the running note \<open>c\<close> by the note \<open>n\<close>,
  and the lists in which no note would be merged into its predecessor.\<close>

definition mergeable :: "pitch \<Rightarrow> pitch \<Rightarrow> bool" where
  "mergeable c n =
     (name (pitchNote n) = name (pitchNote c) \<and>
      octave (pitchNote n) = octave (pitchNote c) \<and>
      \<bar>startTime n - endTime c\<bar> < 0.05)"

fun separated :: "pitch list \<Rightarrow> bool" where
  "separated [] = True"
| "separated [c] = True"
| "separated (c # n # ns) = (\<not> mergeable c n \<and> separated (n # ns))"

text \<open>The number of rounds of the loop of \<open>segmentAudio\<close> from offset \<open>i\<close> on, for a
  signal of \<open>len\<close> samples.\<close>

definition segmentCount :: "nat \<Rightarrow> nat \<Rightarrow> nat" where
  "segmentCount i len =
     (len - bufferSize - i + (bufferSize div 2 - 1)) div (bufferSize div 2)"

text \<open>The key of the chord window a note falls into, the notes of a recording that fall
  into the window with the key \<open>k\<close>, in their order, and the window a chord starts in.\<close>

definition windowKey :: "pitch \<Rightarrow> int" where
  "windowKey p = timeKey (startTime p)"

definition windowNotes :: "int \<Rightarrow> pitch list \<Rightarrow> pitch list" where
  "windowNotes k pitchData = filter (\<lambda>p. windowKey p = k) pitchData"

definition chordKey :: "chord \<Rightarrow> int" where
  "chordKey c = timeKey (chordStart c)"

text \<open>A recording of nine notes, each 0.125 s long, whose times are binary fractions:
  D and F start in the first window of 0.2 s, the notes C4, E4, G4 and Bb4 (named A#) in
  the second, and E, G and B in the third.\<close>

definition windowNote :: "string \<Rightarrow> real \<Rightarrow> real \<Rightarrow> pitch" where
  "windowNote nm f start =
     \<lparr>frequency = f,
      pitchNote = \<lparr>name = nm, octave = 4, noteFrequency = f, cents = 0\<rparr>,
      startTime = start, endTime = start + 1 / 8\<rparr>"

definition dominant7Recording :: "pitch list" where
  "dominant7Recording =
     [windowNote ''D'' 293.66 (1 / 16), windowNote ''F'' 349.23 (1 / 8),
      windowNote ''C'' 261.63 (1 / 4), windowNote ''E'' 329.63 (5 / 16),
      windowNote ''G'' 392 (11 / 32), windowNote ''A#'' 466.16 (3 / 8),
      windowNote ''E'' 329.63 (7 / 16), windowNote ''G'' 392 (1 / 2),
      windowNote ''B'' 493.88 (9 / 16)]"

text \<open>A sample that is zero or \<open>NaN\<close>, and a number that is finite and lies between two
  bounds.\<close>

definition silent :: "jsnum \<Rightarrow> bool" where
  "silent x = (x = NaN \<or> x = Num 0)"

definition finiteIn :: "real \<Rightarrow> real \<Rightarrow> jsnum \<Rightarrow> bool" where
  "finiteIn lo hi x = (case x of Num r \<Rightarrow> lo \<le> r \<and> r \<le> hi | _ \<Rightarrow> False)"

text \<open>The comparison \<open>x >= y\<close>, and the entry of the array \<open>autocorrelation\<close> at a lag, as
  \<open>detectPitchAutocorrelation\<close> has stored it for a segment.\<close>

definition jsge :: "jsnum \<Rightarrow> jsnum \<Rightarrow> bool" where
  "jsge x y = (jsgt x y \<or> (x = y \<and> x \<noteq> NaN))"

definition storedCorrelation :: "jsnum list \<Rightarrow> nat \<Rightarrow> jsnum" where
  "storedCorrelation buffer lag = elemAt (autocorrelation (applyHannWindow buffer)) lag"

text \<open>What the peak search has found after the lags from \<open>a\<close> up to \<open>b\<close>: nothing,
  when no correlation there is greater than 0; otherwise the lowest lag that attains the
  greatest correlation, which is greater than 0.\<close>

definition peakOf :: "(nat \<Rightarrow> jsnum) \<Rightarrow> nat \<Rightarrow> nat \<Rightarrow> jsnum \<times> int \<Rightarrow> bool" where
  "peakOf R a b r =
     ((snd r = -1 \<and> fst r = Num 0 \<and> (\<forall>i. a \<le> i \<and> i < b \<longrightarrow> \<not> jsgt (R i) (Num 0))) \<or>
      (\<exists>L. snd r = int L \<and> a \<le> L \<and> L < b \<and> fst r = R L \<and> jsgt (R L) (Num 0) \<and>
           (\<forall>i. a \<le> i \<and> i < b \<longrightarrow> \<not> jsgt (R i) (R L)) \<and>
           (\<forall>i. a \<le> i \<and> i < L \<longrightarrow> \<not> jsge (R i) (R L))))"

text \<open>The pitch estimator in the words of the specification, to be compared with
  \<open>detectPitchAutocorrelation\<close>: "Select the lag with the maximum R[lag] in
  that window (pure argmax; ties resolve to first lag encountered, i.e. lowest lag)", and
  "if a maximum with lag > 0 is found, the estimated frequency is sampleRate / lag;
  otherwise the segment yields no pitch".\<close>

definition spec_argmaxLag :: "(nat \<Rightarrow> jsnum) \<Rightarrow> nat \<Rightarrow> nat \<Rightarrow> nat" where
  "spec_argmaxLag R lo hi =
     foldl (\<lambda>best l. if jsgt (R l) (R best) then l else best) lo [lo + 1..<hi]"

definition spec_estimate :: "jsnum list \<Rightarrow> real option" where
  "spec_estimate buffer =
     (let lag = spec_argmaxLag (storedCorrelation buffer) minSamples maxSamples
      in if lag > 0 then Some (sampleRate / real lag) else None)"

text \<open>Test signals: \<open>n\<close> samples that are 1 at the positions \<open>ps\<close> and 0 elsewhere.\<close>

definition impulses :: "nat \<Rightarrow> nat list \<Rightarrow> jsnum list" where
  "impulses n ps = map (\<lambda>i. if i \<in> set ps then Num 1 else Num 0) [0..<n]"

text \<open>The result without any note: what \<open>convertToMusicalNotation\<close> makes of no pitch
  data.\<close>

definition emptyResult :: transcriptionResult where
  "emptyResult =
     \<lparr>simpleNotes = [], complexChords = [],
      sheetMusicOf = \<lparr>sheetNotes = [], timeSignature = (4, 4), clef = ''treble''\<rparr>,
      rawPitchData = []\<rparr>"

text \<open>A buffer of digital silence: every sample of every channel is zero.\<close>

definition digitalSilence :: "audioBuffer \<Rightarrow> bool" where
  "digitalSilence b = list_all (list_all (\<lambda>s. s = Num 0)) (channelData b)"

text \<open>A mono buffer of 6145 samples (two analysed segments, at offsets 0 and 2048) with
  two unit impulses 100 samples apart in the part the two segments share.\<close>

definition heldNote :: audioBuffer where
  "heldNote = \<lparr>channelData = [impulses 6145 [3000, 3100]], bufferLength = 6145\<rparr>"

text \<open>A mono buffer of 6145 samples with a pair of impulses 100 samples apart that only
  the first segment contains, and a pair 50 samples apart that only the second contains.\<close>

definition twoNotes :: audioBuffer where
  "twoNotes = \<lparr>channelData = [impulses 6145 [1000, 1100, 5000, 5050]], bufferLength = 6145\<rparr>"

text \<open>The specification's "time ranges never overlap within their own sequence", for a
  sequence of ranges \<open>(start, end)\<close>, in its weakest reading: no range ends after a later
  one starts (two ranges may touch).\<close>

definition nonOverlapping :: "(real \<times> real) list \<Rightarrow> bool" where
  "nonOverlapping ranges = sorted_wrt (\<lambda>a b. snd a \<le> fst b) ranges"

text \<open>The invariant of the object \<open>timeWindows\<close>: no window is empty, and a window holds
  notes of its own key, with start times that are not negative and not after the end.\<close>

definition groupsOK :: "(int \<times> pitch list) list \<Rightarrow> bool" where
  "groupsOK tw =
     (\<forall>(k, g) \<in> set tw. g \<noteq> [] \<and>
        (\<forall>x \<in> set g. windowKey x = k \<and> 0 \<le> startTime x \<and> startTime x \<le> endTime x))"

text \<open>The test of \<open>detectPitches\<close> on a detected frequency.\<close>

definition inRange :: "real \<Rightarrow> bool" where
  "inRange f = (minFrequency \<le> f \<and> f \<le> maxFrequency)"

text \<open>The result of \<open>analyzeAudio\<close> on the buffer \<open>heldNote\<close>.\<close>

definition heldNoteResult :: transcriptionResult where
  "heldNoteResult = convertToMusicalNotation
     [\<lparr>frequency = 441, pitchNote = frequencyToNote 441, startTime = 0, endTime = 6144 / 44100\<rparr>]"

text \<open>The pitch-class name of a detected note, \<open>pitch.note.name\<close>.\<close>

definition noteNameOf :: "pitch \<Rightarrow> string" where
  "noteNameOf p = name (pitchNote p)"

text \<open>Malformed buffers. Two channels with the impulses of \<open>heldNote\<close>, declared as
  8193 frames long (three analysed segments, at offsets 0, 2048 and 4096), the second
  channel with 7000 samples only: the third segment reaches into the missing frames.\<close>

definition mismatched :: audioBuffer where
  "mismatched =
     \<lparr>channelData = [impulses 8193 [3000, 3100], impulses 7000 [3000, 3100]],
      bufferLength = 8193\<rparr>"

text \<open>Two channels with the impulses of \<open>heldNote\<close>, the second channel 145 samples
  shorter than the declared 6145 frames.\<close>

definition shortChannel :: audioBuffer where
  "shortChannel =
     \<lparr>channelData = [impulses 6145 [3000, 3100], impulses 6000 [3000, 3100]],
      bufferLength = 6145\<rparr>"

text \<open>A longer test signal: 20481 samples, nine analysed segments. Every block of 2048
  samples holds a pair of unit impulses, 500 samples into the block; the distance of the
  pair is 100, 80 or 67 samples, in turn. In a segment the pair of its second half lies
  under the middle of the window and outweighs the pair of its first half.\<close>

definition lagOf :: "nat \<Rightarrow> nat" where
  "lagOf j = (if j mod 3 = 1 then 100 else if j mod 3 = 2 then 80 else 67)"

definition arpeggioPositions :: "nat list" where
  "arpeggioPositions = concat (map (\<lambda>j. [2048 * j + 500, 2048 * j + 500 + lagOf j]) [0..<10])"

definition arpeggio :: audioBuffer where
  "arpeggio = \<lparr>channelData = [impulses 20481 arpeggioPositions], bufferLength = 20481\<rparr>"

text \<open>The notes and the result for \<open>arpeggio\<close>: the sample of segment \<open>i\<close> with the
  frequency \<open>f\<close>.\<close>

definition arpeggioNote :: "real \<Rightarrow> nat \<Rightarrow> pitch" where
  "arpeggioNote f i =
     \<lparr>frequency = f, pitchNote = frequencyToNote f,
      startTime = real i * 2048 / 44100, endTime = real i * 2048 / 44100 + 4096 / 44100\<rparr>"

definition arpeggioNotes :: "pitch list" where
  "arpeggioNotes =
     [arpeggioNote 441 0, arpeggioNote (2205 / 4) 1, arpeggioNote (44100 / 67) 2,
      arpeggioNote 441 3, arpeggioNote (2205 / 4) 4, arpeggioNote (44100 / 67) 5,
      arpeggioNote 441 6, arpeggioNote (2205 / 4) 7, arpeggioNote (44100 / 67) 8]"

definition arpeggioResult :: transcriptionResult where
  "arpeggioResult = convertToMusicalNotation arpeggioNotes"

text \<open>A segment with two impulses of opposite sign, 44 samples apart.\<close>

definition antiphase :: "jsnum list" where
  "antiphase =
     map (\<lambda>i. if i = 1000 then Num 1 else if i = 1044 then Num (- 1) else Num 0) [0..<bufferSize]"

section \<open>Rounding\<close>

text \<open>Rounding is monotone, and it leaves a number of the format as it is: an integer of
  fewer than \<open>p\<close> bits times a power of two that is not below the least one. So a value
  that lies between two numbers of the format is rounded to a value between them.\<close>

lemma nearestEven_floor: "\<lfloor>m\<rfloor> \<le> nearestEven m" "nearestEven m \<le> \<lfloor>m\<rfloor> + 1"
  by (simp_all add: nearestEven_def Let_def)

lemma nearestEven_int [simp]: "nearestEven (of_int k) = k"
  by (simp add: nearestEven_def)

lemma nearestEven_mono:
  assumes "m \<le> n"
  shows "nearestEven m \<le> nearestEven n"
proof (cases "\<lfloor>m\<rfloor> < \<lfloor>n\<rfloor>")
  case True
  have "nearestEven m \<le> \<lfloor>m\<rfloor> + 1" by (rule nearestEven_floor)
  also have "\<dots> \<le> \<lfloor>n\<rfloor>" using True by simp
  also have "\<dots> \<le> nearestEven n" by (rule nearestEven_floor)
  finally show ?thesis .
next
  case False
  moreover have "\<lfloor>m\<rfloor> \<le> \<lfloor>n\<rfloor>" using assms by (rule floor_mono)
  ultimately have eq: "\<lfloor>m\<rfloor> = \<lfloor>n\<rfloor>" by simp
  then have "m - of_int \<lfloor>m\<rfloor> \<le> n - of_int \<lfloor>n\<rfloor>" using assms by simp
  then show ?thesis unfolding nearestEven_def Let_def eq by auto
qed

lemma nearestEven_le: "m \<le> of_int k \<Longrightarrow> nearestEven m \<le> k"
  using nearestEven_mono[of m "of_int k"] by simp

lemma nearestEven_ge: "of_int k \<le> m \<Longrightarrow> k \<le> nearestEven m"
  using nearestEven_mono[of "of_int k" m] by simp

lemma rounded_0 [simp]: "rounded p emin 0 = 0"
  by (simp add: rounded_def)

lemma rounded_minus: "rounded p emin (- x) = - rounded p emin x"
  by (simp add: rounded_def Let_def sgn_minus)

text \<open>The binade of a positive number.\<close>

lemma binade:
  assumes "0 < x"
  shows "2 powr of_int \<lfloor>log 2 x\<rfloor> \<le> x" "x < 2 powr of_int (\<lfloor>log 2 x\<rfloor> + 1)"
  using floor_log_eq_powr_iff[of x 2 "\<lfloor>log 2 x\<rfloor>"] assms by simp_all

lemma rounded_pos:
  assumes "0 < x"
  shows "rounded p emin x =
     of_int (nearestEven (x / 2 powr of_int (max \<lfloor>log 2 x\<rfloor> emin - int p + 1)))
       * 2 powr of_int (max \<lfloor>log 2 x\<rfloor> emin - int p + 1)"
  using assms by (simp add: rounded_def Let_def)

lemma rounded_pos_nonneg:
  assumes "0 < x"
  shows "0 \<le> rounded p emin x"
proof -
  let ?q = "(2::real) powr of_int (max \<lfloor>log 2 x\<rfloor> emin - int p + 1)"
  have "0 \<le> x / ?q" using assms by simp
  then have "0 \<le> nearestEven (x / ?q)" using nearestEven_ge[of 0 "x / ?q"] by simp
  then show ?thesis unfolding rounded_pos[OF assms] by simp
qed

lemma pow2_nat: "2 powr (of_int (int p)) = (of_int (2 ^ p) :: real)"
proof -
  have "2 powr (of_int (int p)) = 2 powr (real p)" by simp
  also have "\<dots> = (2::real) ^ p" by (rule powr_realpow) simp
  also have "\<dots> = of_int (2 ^ p)" by simp
  finally show ?thesis .
qed

lemma pow2_split:
  "2 powr of_int (e + 1) = 2 powr (of_int (int p)) * (2::real) powr of_int (e - int p + 1)"
proof -
  have "of_int (e + 1) = of_int (int p) + (of_int (e - int p + 1) :: real)" by simp
  then show ?thesis by (simp only: powr_add)
qed

lemma pow2_split':
  "2 powr of_int e = 2 powr (of_int (int p - 1)) * (2::real) powr of_int (e - int p + 1)"
proof -
  have "of_int e = of_int (int p - 1) + (of_int (e - int p + 1) :: real)" by simp
  then show ?thesis by (simp only: powr_add)
qed

lemma rounded_pos_upper:
  assumes "0 < x" "0 < p"
  shows "rounded p emin x \<le> 2 powr of_int (max \<lfloor>log 2 x\<rfloor> emin + 1)"
proof -
  let ?e = "max \<lfloor>log 2 x\<rfloor> emin"
  let ?q = "(2::real) powr of_int (?e - int p + 1)"
  have q: "0 < ?q" by simp
  have "x < 2 powr of_int (\<lfloor>log 2 x\<rfloor> + 1)" using binade(2)[OF assms(1)] .
  also have "\<dots> \<le> 2 powr of_int (?e + 1)" by (intro powr_mono) simp_all
  finally have "x \<le> of_int (2 ^ p) * ?q" unfolding pow2_split[of ?e p] pow2_nat by (rule less_imp_le)
  then have "x / ?q \<le> of_int (2 ^ p)" using q by (simp only: pos_divide_le_eq)
  then have "nearestEven (x / ?q) \<le> 2 ^ p" by (rule nearestEven_le)
  then have "of_int (nearestEven (x / ?q)) \<le> (of_int (2 ^ p) :: real)" by (simp only: of_int_le_iff)
  then have "of_int (nearestEven (x / ?q)) * ?q \<le> of_int (2 ^ p) * ?q"
    by (rule mult_right_mono[OF _ less_imp_le[OF q]])
  then show ?thesis unfolding rounded_pos[OF assms(1)] pow2_split[of ?e p] pow2_nat .
qed

lemma rounded_pos_lower:
  assumes "0 < x" "0 < p" "emin \<le> \<lfloor>log 2 x\<rfloor>"
  shows "2 powr of_int \<lfloor>log 2 x\<rfloor> \<le> rounded p emin x"
proof -
  let ?e = "\<lfloor>log 2 x\<rfloor>"
  have e: "max ?e emin = ?e" using assms(3) by simp
  let ?q = "(2::real) powr of_int (?e - int p + 1)"
  have q: "0 < ?q" by simp
  have "int p - 1 = int (p - 1)" using assms(2) by simp
  then have p1: "2 powr (of_int (int p - 1)) = (of_int (2 ^ (p - 1)) :: real)"
    by (simp only: pow2_nat)
  have "2 powr of_int ?e \<le> x" using binade(1)[OF assms(1)] .
  then have "of_int (2 ^ (p - 1)) * ?q \<le> x" unfolding pow2_split'[of ?e p] p1 .
  then have "of_int (2 ^ (p - 1)) \<le> x / ?q" using q by (simp only: pos_le_divide_eq)
  then have "2 ^ (p - 1) \<le> nearestEven (x / ?q)" by (rule nearestEven_ge)
  then have "(of_int (2 ^ (p - 1)) :: real) \<le> of_int (nearestEven (x / ?q))" by (simp only: of_int_le_iff)
  then have "of_int (2 ^ (p - 1)) * ?q \<le> of_int (nearestEven (x / ?q)) * ?q"
    by (rule mult_right_mono[OF _ less_imp_le[OF q]])
  then show ?thesis unfolding rounded_pos[OF assms(1)] e pow2_split'[of ?e p] p1 .
qed

lemma max_strict:
  fixes a b c :: int
  shows "max a c < max b c \<Longrightarrow> c < b \<and> max b c = b"
  by (simp add: max_def split: if_splits)

lemma rounded_mono_pos:
  assumes "0 < x" "x \<le> y" "0 < p"
  shows "rounded p emin x \<le> rounded p emin y"
proof -
  have y: "0 < y" using assms by simp
  let ?ex = "max \<lfloor>log 2 x\<rfloor> emin"
  let ?ey = "max \<lfloor>log 2 y\<rfloor> emin"
  have "log 2 x \<le> log 2 y" using assms by simp
  then have fl: "\<lfloor>log 2 x\<rfloor> \<le> \<lfloor>log 2 y\<rfloor>" by (rule floor_mono)
  then have le: "?ex \<le> ?ey" by simp
  show ?thesis
  proof (cases "?ex = ?ey")
    case True
    let ?q = "(2::real) powr of_int (?ey - int p + 1)"
    have "x / ?q \<le> y / ?q" using assms(2) by (intro divide_right_mono) simp_all
    then have "nearestEven (x / ?q) \<le> nearestEven (y / ?q)" by (rule nearestEven_mono)
    then have "(of_int (nearestEven (x / ?q)) :: real) \<le> of_int (nearestEven (y / ?q))"
      by (simp only: of_int_le_iff)
    then have "of_int (nearestEven (x / ?q)) * ?q \<le> of_int (nearestEven (y / ?q)) * ?q"
      by (intro mult_right_mono) simp_all
    then show ?thesis unfolding rounded_pos[OF assms(1)] rounded_pos[OF y] True .
  next
    case False
    with le have lt: "?ex < ?ey" by (rule order.not_eq_order_implies_strict[rotated])
    from max_strict[OF lt] have n: "emin \<le> \<lfloor>log 2 y\<rfloor>" "?ey = \<lfloor>log 2 y\<rfloor>" by simp_all
    have "rounded p emin x \<le> 2 powr of_int (?ex + 1)"
      using assms(1,3) by (rule rounded_pos_upper)
    also have "\<dots> \<le> 2 powr of_int \<lfloor>log 2 y\<rfloor>"
    proof (intro powr_mono)
      have "?ex + 1 \<le> ?ey" using lt by linarith
      then show "real_of_int (?ex + 1) \<le> real_of_int \<lfloor>log 2 y\<rfloor>"
        unfolding n(2) by (simp only: of_int_le_iff)
    qed simp
    also have "\<dots> \<le> rounded p emin y" using y assms(3) n(1) by (rule rounded_pos_lower)
    finally show ?thesis .
  qed
qed

lemma rounded_mono:
  assumes "x \<le> y" "0 < p"
  shows "rounded p emin x \<le> rounded p emin y"
proof -
  consider (pos) "0 < x" | (neg) "y < 0" | (mid) "x \<le> 0" "0 \<le> y" by linarith
  then show ?thesis
  proof cases
    case pos
    then show ?thesis using assms by (intro rounded_mono_pos)
  next
    case neg
    then have "0 < - y" "- y \<le> - x" using assms by simp_all
    then have "rounded p emin (- y) \<le> rounded p emin (- x)" using assms(2) by (intro rounded_mono_pos)
    then show ?thesis by (simp add: rounded_minus)
  next
    case mid
    have "rounded p emin x \<le> 0"
    proof (cases "x = 0")
      case True then show ?thesis by simp
    next
      case False
      then have "0 < - x" using mid by simp
      then have "0 \<le> rounded p emin (- x)" by (rule rounded_pos_nonneg)
      then show ?thesis by (simp add: rounded_minus)
    qed
    moreover have "0 \<le> rounded p emin y"
    proof (cases "y = 0")
      case True then show ?thesis by simp
    next
      case False
      then have "0 < y" using mid by simp
      then show ?thesis by (rule rounded_pos_nonneg)
    qed
    ultimately show ?thesis by linarith
  qed
qed


lemma rounded_fixed_pos:
  assumes "0 < k" "k < 2 ^ p" "emin - int p + 1 \<le> j"
  shows "rounded p emin (of_int k * 2 powr of_int j) = of_int k * 2 powr of_int j"
proof -
  define c where "c = of_int k * (2::real) powr of_int j"
  have c: "0 < c" using assms(1) by (simp add: c_def)
  define s where "s = max \<lfloor>log 2 c\<rfloor> emin - int p + 1"
  have "2 powr of_int \<lfloor>log 2 c\<rfloor> \<le> c" using binade(1)[OF c] .
  also have "c < of_int (2 ^ p) * 2 powr of_int j"
    unfolding c_def using assms(2)
    by (intro mult_strict_right_mono) (simp_all only: of_int_less_iff powr_gt_zero)
  also have "\<dots> = 2 powr of_int (int p + j)"
    unfolding pow2_nat[symmetric] by (simp add: powr_add)
  finally have "of_int \<lfloor>log 2 c\<rfloor> < (of_int (int p + j) :: real)"
    by (simp only: powr_less_cancel_iff[of 2] one_less_numeral_iff semiring_norm)
  then have "\<lfloor>log 2 c\<rfloor> < int p + j" by (simp only: of_int_less_iff)
  then have sj: "s \<le> j" using assms(3) by (simp add: s_def)
  define n where "n = nat (j - s)"
  have jn: "j = s + int n" using sj by (simp add: n_def)
  have "(2::real) powr of_int j = 2 powr (of_int s + of_int (int n))"
    using jn by (metis of_int_add)
  also have "\<dots> = 2 powr of_int s * 2 powr of_int (int n)" by (simp only: powr_add)
  also have "\<dots> = 2 powr of_int s * of_int (2 ^ n)" by (simp only: pow2_nat)
  finally have pj: "(2::real) powr of_int j = 2 powr of_int s * of_int (2 ^ n)" .
  have cq: "c = of_int (k * 2 ^ n) * 2 powr of_int s"
    unfolding c_def pj by simp
  have "c / 2 powr of_int s = of_int (k * 2 ^ n)"
    unfolding cq by simp
  then have "nearestEven (c / 2 powr of_int s) = k * 2 ^ n" by (simp only: nearestEven_int)
  then have "rounded p emin c = of_int (k * 2 ^ n) * 2 powr of_int s"
    unfolding rounded_pos[OF c] s_def by simp
  then have "rounded p emin c = c" using cq by simp
  then show ?thesis unfolding c_def .
qed

lemma rounded_fixed:
  assumes "\<bar>k\<bar> < 2 ^ p" "emin - int p + 1 \<le> j"
  shows "rounded p emin (of_int k * 2 powr of_int j) = of_int k * 2 powr of_int j"
proof -
  consider (pos) "0 < k" | (zero) "k = 0" | (neg) "k < 0" by linarith
  then show ?thesis
  proof cases
    case pos
    then show ?thesis using assms by (intro rounded_fixed_pos) simp_all
  next
    case zero
    then show ?thesis by simp
  next
    case neg
    then have "rounded p emin (of_int (- k) * 2 powr of_int j) = of_int (- k) * 2 powr of_int j"
      using assms by (intro rounded_fixed_pos) simp_all
    then have "rounded p emin (- (of_int k * 2 powr of_int j)) = - (of_int k * 2 powr of_int j)"
      by simp
    then show ?thesis by (simp only: rounded_minus neg_equal_iff_equal)
  qed
qed

text \<open>Dyadic fractions: an integer of fewer than \<open>p\<close> bits over a power of two.\<close>

lemma dyadic_powr: "of_int a / 2 ^ m = of_int a * (2::real) powr of_int (- int m)"
proof -
  have "(2::real) powr of_int (- int m) = 2 powr (- real m)" by simp
  also have "\<dots> = 1 / 2 powr real m" by (simp only: powr_minus_divide)
  also have "\<dots> = 1 / 2 ^ m" by (simp add: powr_realpow)
  finally show ?thesis by simp
qed

lemma rounded_dyadic:
  assumes "\<bar>a\<bar> < 2 ^ p" "int m \<le> int p - 1 - emin"
  shows "rounded p emin (of_int a / 2 ^ m) = of_int a / 2 ^ m"
  unfolding dyadic_powr using assms by (intro rounded_fixed) simp_all

lemma dyadic_small:
  assumes "\<bar>a\<bar> < 2 ^ p" "int p \<le> emax + 1"
  shows "\<bar>of_int a / 2 ^ m\<bar> < (2::real) powr of_int (emax + 1)"
proof -
  have "\<bar>of_int a / 2 ^ m\<bar> = \<bar>of_int a\<bar> / (2::real) ^ m" by simp
  also have "\<dots> \<le> \<bar>of_int a\<bar>" by (simp add: divide_le_eq mult_le_cancel_left1)
  also have "\<dots> < of_int (2 ^ p)" using assms(1) by (simp only: of_int_abs[symmetric] of_int_less_iff)
  also have "\<dots> = 2 powr of_int (int p)" by (simp only: pow2_nat)
  also have "\<dots> \<le> 2 powr of_int (emax + 1)"
  proof (intro powr_mono)
    show "real_of_int (int p) \<le> real_of_int (emax + 1)" using assms(2) by (simp only: of_int_le_iff)
  qed simp
  finally show ?thesis .
qed

lemma toFormat_between:
  assumes x: "of_int a / 2 ^ m \<le> x" "x \<le> of_int b / 2 ^ n"
    and a: "\<bar>a\<bar> < 2 ^ p" "int m \<le> int p - 1 - emin"
    and b: "\<bar>b\<bar> < 2 ^ p" "int n \<le> int p - 1 - emin"
    and p: "0 < p" "int p \<le> emax + 1"
  shows "\<exists>r. toFormat p emin emax x = Num r \<and> of_int a / 2 ^ m \<le> r \<and> r \<le> of_int b / 2 ^ n"
proof -
  let ?r = "rounded p emin x"
  have "rounded p emin (of_int a / 2 ^ m) \<le> ?r" using x(1) p(1) by (rule rounded_mono)
  then have lo: "of_int a / 2 ^ m \<le> ?r" unfolding rounded_dyadic[OF a] .
  have "?r \<le> rounded p emin (of_int b / 2 ^ n)" using x(2) p(1) by (rule rounded_mono)
  then have hi: "?r \<le> of_int b / 2 ^ n" unfolding rounded_dyadic[OF b] .
  have "\<bar>?r\<bar> \<le> max \<bar>of_int a / 2 ^ m\<bar> \<bar>of_int b / 2 ^ n\<bar>" using lo hi by linarith
  also have "\<dots> < (2::real) powr of_int (emax + 1)"
    using dyadic_small[OF a(1) p(2), of m] dyadic_small[OF b(1) p(2), of n] by simp
  finally have "toFormat p emin emax x = Num ?r" by (simp add: toFormat_def Let_def)
  with lo hi show ?thesis by blast
qed

lemma finiteIn_Num [simp]: "finiteIn lo hi (Num r) \<longleftrightarrow> lo \<le> r \<and> r \<le> hi"
  by (simp add: finiteIn_def)

lemma finiteIn_other [simp]:
  "\<not> finiteIn lo hi NaN" "\<not> finiteIn lo hi PosInf" "\<not> finiteIn lo hi NegInf"
  by (simp_all add: finiteIn_def)

lemma finiteInE:
  assumes "finiteIn lo hi x"
  obtains r where "x = Num r" "lo \<le> r" "r \<le> hi"
  using assms by (cases x) simp_all

lemma toDouble_fence:
  assumes "lo \<le> x" "x \<le> hi" "lo = of_int a / 2 ^ m" "hi = of_int b / 2 ^ n"
    and "\<bar>a\<bar> < 2 ^ 53" "\<bar>b\<bar> < 2 ^ 53" "m \<le> 1074" "n \<le> 1074"
  shows "finiteIn lo hi (toDouble x)"
proof -
  have "\<exists>r. toFormat 53 (- 1022) 1023 x = Num r \<and> of_int a / 2 ^ m \<le> r \<and> r \<le> of_int b / 2 ^ n"
    using assms by (intro toFormat_between) simp_all
  then show ?thesis unfolding toDouble_def assms(3,4) by auto
qed

lemma toFloat32_fence:
  assumes "lo \<le> x" "x \<le> hi" "lo = of_int a / 2 ^ m" "hi = of_int b / 2 ^ n"
    and "\<bar>a\<bar> < 2 ^ 24" "\<bar>b\<bar> < 2 ^ 24" "m \<le> 149" "n \<le> 149"
  shows "finiteIn lo hi (toFloat32 x)"
proof -
  have "\<exists>r. toFormat 24 (- 126) 127 x = Num r \<and> of_int a / 2 ^ m \<le> r \<and> r \<le> of_int b / 2 ^ n"
    using assms by (intro toFormat_between) simp_all
  then show ?thesis unfolding toFloat32_def assms(3,4) by auto
qed

lemma toDouble_int:
  assumes "\<bar>a\<bar> < 2 ^ 53"
  shows "toDouble (of_int a) = Num (of_int a)"
proof -
  have "finiteIn (of_int a) (of_int a) (toDouble (of_int a))"
    using assms by (intro toDouble_fence[where a = a and m = 0 and b = a and n = 0]) simp_all
  then show ?thesis by (auto elim!: finiteInE)
qed

lemma toFloat32_int:
  assumes "\<bar>a\<bar> < 2 ^ 24"
  shows "toFloat32 (of_int a) = Num (of_int a)"
proof -
  have "finiteIn (of_int a) (of_int a) (toFloat32 (of_int a))"
    using assms by (intro toFloat32_fence[where a = a and m = 0 and b = a and n = 0]) simp_all
  then show ?thesis by (auto elim!: finiteInE)
qed

lemma toDouble_small [simp]:
  "toDouble 0 = Num 0" "toDouble 1 = Num 1" "toDouble 2 = Num 2" "toDouble (- 1) = Num (- 1)"
  using toDouble_int[of 0] toDouble_int[of 1] toDouble_int[of 2] toDouble_int[of "- 1"] by simp_all

lemma toFloat32_small [simp]:
  "toFloat32 0 = Num 0" "toFloat32 1 = Num 1" "toFloat32 (- 1) = Num (- 1)"
  using toFloat32_int[of 0] toFloat32_int[of 1] toFloat32_int[of "- 1"] by simp_all
text \<open>Some roundings: a tenth as a single and as a double, and two ties between singles,
  which go to the even significand.\<close>

lemma floor_log_binade:
  "0 < x \<Longrightarrow> 2 powr of_int e \<le> x \<Longrightarrow> x < 2 powr of_int (e + 1) \<Longrightarrow> \<lfloor>log 2 x\<rfloor> = e"
  using floor_log_eq_powr_iff[of x 2 e] by simp

lemma toFloat32_tenth: "toFloat32 (1 / 10) = Num (13421773 / 2 ^ 27)"
proof -
  have l: "\<lfloor>log 2 (1 / 10 :: real)\<rfloor> = -4"
    by (rule floor_log_binade) (simp_all add: powr_minus powr_neg_numeral)
  have p: "(2::real) powr -27 = 1 / 2 ^ 27" by (simp add: powr_neg_numeral)
  have "rounded 24 (-126) (1 / 10) = 13421773 / 2 ^ 27"
    unfolding rounded_def Let_def using l
    by (simp add: p) (simp add: nearestEven_def Let_def)
  then show ?thesis by (simp add: toFloat32_def toFormat_def Let_def)
qed

lemma toDouble_tenth: "toDouble (1 / 10) = Num (3602879701896397 / 2 ^ 55)"
proof -
  have l: "\<lfloor>log 2 (1 / 10 :: real)\<rfloor> = -4"
    by (rule floor_log_binade) (simp_all add: powr_minus powr_neg_numeral)
  have p: "(2::real) powr -56 = 1 / 2 ^ 56" by (simp add: powr_neg_numeral)
  have "rounded 53 (-1022) (1 / 10) = 3602879701896397 / 2 ^ 55"
    unfolding rounded_def Let_def using l
    by (simp add: p) (simp add: nearestEven_def Let_def)
  then show ?thesis by (simp add: toDouble_def toFormat_def Let_def)
qed

lemma toFloat32_ties:
  "toFloat32 (1 + 1 / 2 ^ 24) = Num 1" "toFloat32 (1 + 3 / 2 ^ 24) = Num (1 + 1 / 2 ^ 22)"
proof -
  have l: "\<lfloor>log 2 (1 + 1 / 2 ^ 24 :: real)\<rfloor> = 0" "\<lfloor>log 2 (1 + 3 / 2 ^ 24 :: real)\<rfloor> = 0"
    by (rule floor_log_binade; simp)+
  have p: "(2::real) powr -23 = 1 / 2 ^ 23" by (simp add: powr_neg_numeral)
  have "rounded 24 (-126) (1 + 1 / 2 ^ 24) = 1"
    unfolding rounded_def Let_def using l
    by (simp add: p) (simp add: nearestEven_def Let_def)
  then show "toFloat32 (1 + 1 / 2 ^ 24) = Num 1"
    by (simp add: toFloat32_def toFormat_def Let_def)
  have "rounded 24 (-126) (1 + 3 / 2 ^ 24) = 1 + 1 / 2 ^ 22"
    unfolding rounded_def Let_def using l
    by (simp add: p) (simp add: nearestEven_def Let_def)
  then show "toFloat32 (1 + 3 / 2 ^ 24) = Num (1 + 1 / 2 ^ 22)"
    by (simp add: toFloat32_def toFormat_def Let_def)
qed

lemma toFloat32_overflow: "toFloat32 (2 ^ 128 - 2 ^ 103) = PosInf"
proof -
  have l: "\<lfloor>log 2 (2 ^ 128 - 2 ^ 103 :: real)\<rfloor> = 127"
    by (rule floor_log_binade; simp add: powr_numeral)
  have p: "(2::real) powr 104 = 2 ^ 104" by (simp add: powr_numeral)
  have "rounded 24 (-126) (2 ^ 128 - 2 ^ 103) = 2 ^ 128"
    unfolding rounded_def Let_def using l
    by (simp add: p) (simp add: nearestEven_def Let_def)
  then show ?thesis by (simp add: toFloat32_def toFormat_def Let_def powr_numeral)
qed

lemma toFloat32_underflow: "toFloat32 (1 / 2 ^ 150) = Num 0"
proof -
  have l: "\<lfloor>log 2 (1 / 2 ^ 150 :: real)\<rfloor> = -150"
    by (rule floor_log_binade; simp add: powr_neg_numeral)
  have p: "(2::real) powr -149 = 1 / 2 ^ 149" by (simp add: powr_neg_numeral)
  have "rounded 24 (-126) (1 / 2 ^ 150) = 0"
    unfolding rounded_def Let_def using l
    by (simp add: p) (simp add: nearestEven_def Let_def)
  then show ?thesis by (simp add: toFloat32_def toFormat_def Let_def)
qed

section \<open>Note consolidation\<close>

lemma consolidateFrom_hd:
  "\<exists>e ys. consolidateFrom c ns = (c\<lparr>endTime := e\<rparr>) # ys"
proof (induction ns arbitrary: c)
  case Nil
  have "consolidateFrom c [] = (c\<lparr>endTime := endTime c\<rparr>) # []" by simp
  then show ?case by blast
next
  case (Cons n ns)
  show ?case
  proof (cases "mergeable c n")
    case True
    obtain e ys where
      "consolidateFrom (c\<lparr>endTime := endTime n\<rparr>) ns = (c\<lparr>endTime := endTime n\<rparr>)\<lparr>endTime := e\<rparr> # ys"
      using Cons.IH by blast
    with True show ?thesis by (auto simp: mergeable_def)
  next
    case False
    have "consolidateFrom c (n # ns) = (c\<lparr>endTime := endTime c\<rparr>) # consolidateFrom n ns"
      using False by (auto simp: mergeable_def)
    then show ?thesis by blast
  qed
qed

text \<open>A note is pushed only when its successor failed the merge test against it, and the
  successor keeps its name, octave and start time whatever is merged into it later.\<close>

lemma separated_consolidateFrom: "separated (consolidateFrom c ns)"
proof (induction ns arbitrary: c)
  case Nil
  show ?case by simp
next
  case (Cons n ns)
  show ?case
  proof (cases "mergeable c n")
    case True
    then show ?thesis using Cons.IH by (auto simp: mergeable_def)
  next
    case False
    obtain e ys where h: "consolidateFrom n ns = (n\<lparr>endTime := e\<rparr>) # ys"
      using consolidateFrom_hd by blast
    have "\<not> mergeable c (n\<lparr>endTime := e\<rparr>)"
      using False by (simp add: mergeable_def)
    moreover have "separated (consolidateFrom n ns)" by (rule Cons.IH)
    ultimately have "separated (c # consolidateFrom n ns)" using h by simp
    moreover have "consolidateFrom c (n # ns) = c # consolidateFrom n ns"
      using False by (auto simp: mergeable_def)
    ultimately show ?thesis by simp
  qed
qed

lemma consolidateFrom_separated: "separated (c # ns) \<Longrightarrow> consolidateFrom c ns = c # ns"
  by (induction ns arbitrary: c) (auto simp: mergeable_def)

lemma separated_consolidateNotes: "separated (consolidateNotes xs)"
  by (cases xs) (simp_all add: separated_consolidateFrom)

lemma consolidateNotes_separated: "separated xs \<Longrightarrow> consolidateNotes xs = xs"
  by (cases xs) (simp_all add: consolidateFrom_separated)

text \<open>Claim C9. \<open>consolidateNotes\<close> is idempotent: consolidating an already consolidated
  sequence of pitch samples gives that sequence again, for every input sequence.\<close>

theorem consolidateNotes_idempotent:
  "consolidateNotes (consolidateNotes xs) = consolidateNotes xs"
  by (rule consolidateNotes_separated) (rule separated_consolidateNotes)

section \<open>Segmentation\<close>

lemma count_step_aux:
  fixes d h :: nat
  assumes "0 < d" "0 < h"
  shows "(d + (h - 1)) div h = Suc ((d - h + (h - 1)) div h)"
proof (cases "h \<le> d")
  case True
  then have "d + (h - 1) = (d - h + (h - 1)) + h" using assms by simp
  then have "(d + (h - 1)) div h = ((d - h + (h - 1)) + h) div h" by simp
  also have "\<dots> = Suc ((d - h + (h - 1)) div h)"
    using assms(2) by (simp only: div_add_self2)
  finally show ?thesis .
next
  case False
  then have a: "d - h + (h - 1) < h" using assms by simp
  have "d + (h - 1) = (d - 1) + h" using assms by simp
  then have "(d + (h - 1)) div h = ((d - 1) + h) div h" by simp
  also have "\<dots> = Suc ((d - 1) div h)"
    using assms(2) by (simp only: div_add_self2)
  also have "(d - 1) div h = 0" using False assms by simp
  finally show ?thesis using a by simp
qed


lemma half_pos: "0 < bufferSize div 2" by (simp add: bufferSize_def)

lemma segmentCount_step:
  assumes "int i < int len - int bufferSize"
  shows "segmentCount i len = Suc (segmentCount (i + bufferSize div 2) len)"
proof -
  have d: "0 < len - bufferSize - i" using assms by linarith
  have "len - bufferSize - (i + bufferSize div 2) = len - bufferSize - i - bufferSize div 2"
    by simp
  then show ?thesis
    unfolding segmentCount_def using count_step_aux[OF d half_pos] by simp
qed

lemma segmentCount_stop:
  assumes "\<not> int i < int len - int bufferSize"
  shows "segmentCount i len = 0"
proof -
  have "len - bufferSize - i = 0" using assms by linarith
  moreover have "(bufferSize div 2 - 1) div (bufferSize div 2) = 0"
    using half_pos by simp
  ultimately show ?thesis unfolding segmentCount_def by simp
qed

lemma segmentAudioFrom_eq:
  "segmentAudioFrom i xs =
     map (\<lambda>j. take bufferSize (drop (i + j * (bufferSize div 2)) xs))
       [0..<segmentCount i (length xs)]"
proof (induction i xs rule: segmentAudioFrom.induct)
  case (1 i xs)
  show ?case
  proof (cases "int i < int (length xs) - int bufferSize")
    case True
    have "segmentAudioFrom i xs =
       take bufferSize (drop i xs) # segmentAudioFrom (i + bufferSize div 2) xs"
      using True by (subst segmentAudioFrom.simps) simp
    also have "\<dots> = take bufferSize (drop i xs) #
        map (\<lambda>j. take bufferSize (drop (i + bufferSize div 2 + j * (bufferSize div 2)) xs))
          [0..<segmentCount (i + bufferSize div 2) (length xs)]"
      using 1[OF True] by simp
    also have "\<dots> = map (\<lambda>j. take bufferSize (drop (i + j * (bufferSize div 2)) xs))
       [0..<Suc (segmentCount (i + bufferSize div 2) (length xs))]"
    proof -
      have "[0..<Suc (segmentCount (i + bufferSize div 2) (length xs))] =
            0 # map Suc [0..<segmentCount (i + bufferSize div 2) (length xs)]"
        by (simp only: upt_conv_Cons[OF zero_less_Suc] map_Suc_upt)
      then show ?thesis by (simp add: o_def add.assoc del: upt_Suc)
    qed
    finally show ?thesis using segmentCount_step[OF True] by simp
  next
    case False
    then show ?thesis
      by (subst segmentAudioFrom.simps) (simp add: segmentCount_stop)
  qed
qed

lemma segmentCount_bufferSize: "segmentCount 0 bufferSize = 0"
  by (rule segmentCount_stop) simp

lemma segmentCount_iff:
  "j < segmentCount i len \<longleftrightarrow> i + j * (bufferSize div 2) + bufferSize < len"
proof (induction j arbitrary: i)
  case 0
  show ?case
  proof (cases "int i < int len - int bufferSize")
    case True
    then show ?thesis using segmentCount_step[OF True] by (simp; linarith?)
  next
    case False
    then show ?thesis using segmentCount_stop[OF False] by (simp; linarith?)
  qed
next
  case (Suc j)
  show ?case
  proof (cases "int i < int len - int bufferSize")
    case True
    have "Suc j < segmentCount i len \<longleftrightarrow> j < segmentCount (i + bufferSize div 2) len"
      using segmentCount_step[OF True] by simp
    also have "\<dots> \<longleftrightarrow> i + bufferSize div 2 + j * (bufferSize div 2) + bufferSize < len"
      by (rule Suc.IH)
    finally show ?thesis by (simp add: add.assoc)
  next
    case False
    then have "\<not> i + Suc j * (bufferSize div 2) + bufferSize < len" by (simp; linarith?)
    then show ?thesis using segmentCount_stop[OF False] by simp
  qed
qed

lemma segmentAudio_eq:
  "segmentAudio xs =
     map (\<lambda>j. take bufferSize (drop (j * (bufferSize div 2)) xs))
       [0..<segmentCount 0 (length xs)]"
  by (simp add: segmentAudio_def segmentAudioFrom_eq)

lemma segmentAudio_lengths:
  assumes "s \<in> set (segmentAudio xs)"
  shows "length s = bufferSize"
proof -
  obtain j where j: "j < segmentCount 0 (length xs)"
    and s: "s = take bufferSize (drop (j * (bufferSize div 2)) xs)"
    using assms by (auto simp: segmentAudio_eq)
  have "0 + j * (bufferSize div 2) + bufferSize < length xs"
    using j by (simp only: segmentCount_iff)
  then show ?thesis using s by simp
qed

text \<open>Claim C6. The specification has a slice for every offset with
  \<open>offset + segmentLength \<le> length\<close>, so that a signal of exactly \<open>segmentLength\<close> samples
  gives one segment. The loop test is strict (\<open>i < length - segmentLength\<close>,
  \<open>segmentCount_iff\<close>): on a signal of exactly \<open>bufferSize\<close> samples the source returns no
  segment at all.\<close>

theorem segmentAudio_exact_length_yields_nothing:
  "segmentAudio (replicate bufferSize (Num 0)) = []"
  by (simp add: segmentAudio_def segmentAudioFrom_eq segmentCount_bufferSize)

section \<open>Frequency to note\<close>

lemma jsrem_fix: "(if jsrem a b < 0 then jsrem a b + b else jsrem a b) = a mod b" if "0 < b"
proof (cases "0 \<le> a")
  case True
  moreover have "\<not> a mod b < 0" using that by (simp add: not_less)
  ultimately show ?thesis using that by (cases "a = 0") (simp_all add: jsrem_def)
next
  case False
  then have neg: "a < 0" by simp
  have j: "jsrem a b = - ((- a) mod b)" using neg that by (simp add: jsrem_def)
  show ?thesis
  proof (cases "(- a) mod b = 0")
    case True
    then have "a mod b = 0" by (metis mod_minus_eq minus_minus neg_equal_0_iff_equal)
    then show ?thesis using True j by simp
  next
    case False
    have "0 \<le> (- a) mod b" using that by simp
    then have lt: "jsrem a b < 0" using False j by linarith
    have "a mod b = b - (- a) mod b"
      using False zmod_zminus1_eq_if[of "- a" b] by simp
    then show ?thesis using lt j by simp
  qed
qed

lemma semitones_exact:
  "round (12 * log 2 (440 * 2 powr (real_of_int k / 12) / 440)) = k"
  by (simp add: log_powr)

lemma closest_exact: "440 * (2 powr (1 / 12)) powr (real_of_int k) = 440 * 2 powr (real_of_int k / 12)"
  by (simp add: powr_powr)

lemma frequencyToNote_equal_temperament:
  "frequencyToNote (440 * 2 powr (real_of_int k / 12)) =
     \<lparr>name = noteNames ! nat ((k + 9) mod 12),
      octave = (if (k + 9) mod 12 < 3 then 4 + (k + 9) div 12 - 1 else 4 + (k + 9) div 12),
      noteFrequency = 440 * 2 powr (real_of_int k / 12), cents = 0\<rparr>"
  unfolding frequencyToNote_def Let_def semitones_exact closest_exact
  using jsrem_fix[of 12 "k + 9"] by simp

text \<open>Claim C1. For an equal-tempered pitch \<open>440 * 2^(k/12)\<close> the specification expects
  the name and octave of scientific pitch notation, A4 for 440 Hz. The source computes the
  index \<open>(k + 9) mod 12\<close>, which counts from C, and reads it in a table that starts at A:
  for 440 Hz it returns F#4 (and, by \<open>frequencyToNote_equal_temperament\<close>, a name three
  places off for every \<open>k\<close>); the cents deviation is 0 there.\<close>

theorem frequencyToNote_440:
  "frequencyToNote 440 = \<lparr>name = ''F#'', octave = 4, noteFrequency = 440, cents = 0\<rparr>"
  by (simp add: frequencyToNote_def jsrem_def noteNames_def Let_def)

section \<open>Pitch estimation\<close>

lemma minSamples_eq: "minSamples = 44"
  by (simp add: minSamples_def sampleRate_def maxFrequency_def)

lemma maxSamples_eq: "maxSamples = 552"
  by (simp add: maxSamples_def sampleRate_def minFrequency_def)

lemma maxSamples_le_bufferSize: "maxSamples \<le> bufferSize"
  by (simp add: maxSamples_eq bufferSize_def)

lemma elemAt_autocorrelation:
  "i < bufferSize \<Longrightarrow> elemAt (autocorrelation w) i = autocorrelationAt w i"
  by (simp add: elemAt_def autocorrelation_def)

lemma detect_of_peak:
  "detectPitchAutocorrelation buffer =
     (let maxIndex = snd (peakSearch (autocorrelation (applyHannWindow buffer)))
      in if maxIndex > 0 then sampleRate / real_of_int maxIndex else 0)"
  by (simp add: detectPitchAutocorrelation_def Let_def)

text \<open>The comparison is a strict order on the numbers other than \<open>NaN\<close>.\<close>

lemma jsgt_irrefl: "\<not> jsgt x x"
  by (cases x) simp_all

lemma jsgt_trans: "jsgt x y \<Longrightarrow> jsgt y z \<Longrightarrow> jsgt x z"
  by (cases x; cases y; cases z) simp_all

lemma not_jsgt_below: "\<not> jsgt x m \<Longrightarrow> jsgt v m \<Longrightarrow> \<not> jsgt x v"
  by (cases x; cases m; cases v) simp_all

lemma not_jsge_below: "\<not> jsgt x m \<Longrightarrow> jsgt v m \<Longrightarrow> \<not> jsge x v"
  by (cases x; cases m; cases v) (simp_all add: jsge_def)

lemma peakStep_peakOf:
  assumes "peakOf (elemAt ac) a b r" "a \<le> b"
  shows "peakOf (elemAt ac) a (Suc b) (peakStep ac r b)"
proof -
  let ?R = "elemAt ac"
  obtain m idx where r: "r = (m, idx)" by (cases r)
  from assms(1) consider
    (none) "idx = -1" "m = Num 0" "\<forall>i. a \<le> i \<and> i < b \<longrightarrow> \<not> jsgt (?R i) (Num 0)"
  | (some) L where "idx = int L" "a \<le> L" "L < b" "m = ?R L" "jsgt (?R L) (Num 0)"
      "\<forall>i. a \<le> i \<and> i < b \<longrightarrow> \<not> jsgt (?R i) (?R L)" "\<forall>i. a \<le> i \<and> i < L \<longrightarrow> \<not> jsge (?R i) (?R L)"
    unfolding peakOf_def r by auto
  then show ?thesis
  proof cases
    case none
    show ?thesis
    proof (cases "jsgt (?R b) (Num 0)")
      case True
      have "peakStep ac r b = (?R b, int b)" using True none by (simp add: r)
      moreover have "\<forall>i. a \<le> i \<and> i < Suc b \<longrightarrow> \<not> jsgt (?R i) (?R b)"
        using none(3) True not_jsgt_below jsgt_irrefl by (metis less_Suc_eq)
      moreover have "\<forall>i. a \<le> i \<and> i < b \<longrightarrow> \<not> jsge (?R i) (?R b)"
        using none(3) True not_jsge_below by blast
      ultimately show ?thesis unfolding peakOf_def using True assms(2) by auto
    next
      case False
      have "peakStep ac r b = (m, idx)" using False none by (simp add: r)
      moreover have "\<forall>i. a \<le> i \<and> i < Suc b \<longrightarrow> \<not> jsgt (?R i) (Num 0)"
        using none(3) False by (metis less_Suc_eq)
      ultimately show ?thesis unfolding peakOf_def using none by auto
    qed
  next
    case some
    show ?thesis
    proof (cases "jsgt (?R b) (?R L)")
      case True
      have "peakStep ac r b = (?R b, int b)" using True some by (simp add: r)
      moreover have "\<forall>i. a \<le> i \<and> i < Suc b \<longrightarrow> \<not> jsgt (?R i) (?R b)"
        using some(6) True not_jsgt_below jsgt_irrefl by (metis less_Suc_eq)
      moreover have "\<forall>i. a \<le> i \<and> i < b \<longrightarrow> \<not> jsge (?R i) (?R b)"
        using some(6) True not_jsge_below by blast
      moreover have "jsgt (?R b) (Num 0)" using True some(5) by (rule jsgt_trans)
      ultimately show ?thesis unfolding peakOf_def using assms(2) by auto
    next
      case False
      have "peakStep ac r b = (m, idx)" using False some by (simp add: r)
      moreover have "\<forall>i. a \<le> i \<and> i < Suc b \<longrightarrow> \<not> jsgt (?R i) (?R L)"
        using some(6) False by (metis less_Suc_eq)
      moreover have "L < Suc b" using some(3) by simp
      ultimately show ?thesis unfolding peakOf_def using some by auto
    qed
  qed
qed

lemma peakSearch_range:
  "peakOf (elemAt ac) a (a + n) (foldl (peakStep ac) (Num 0, -1) [a..<a + n])"
proof (induction n)
  case 0
  have "\<forall>i. a \<le> i \<and> i < a \<longrightarrow> \<not> jsgt (elemAt ac i) (Num 0)" by auto
  then show ?case by (simp add: peakOf_def)
next
  case (Suc n)
  have "peakOf (elemAt ac) a (Suc (a + n))
          (peakStep ac (foldl (peakStep ac) (Num 0, -1) [a..<a + n]) (a + n))"
    using Suc by (intro peakStep_peakOf) simp_all
  then show ?case by simp
qed

lemma peakSearch_peakOf:
  "peakOf (storedCorrelation buffer) minSamples maxSamples
     (peakSearch (autocorrelation (applyHannWindow buffer)))"
proof -
  have le: "minSamples \<le> maxSamples" by (simp add: minSamples_eq maxSamples_eq)
  have "peakOf (elemAt (autocorrelation (applyHannWindow buffer)))
          minSamples (minSamples + (maxSamples - minSamples))
          (foldl (peakStep (autocorrelation (applyHannWindow buffer))) (Num 0, -1)
             [minSamples..<minSamples + (maxSamples - minSamples)])"
    by (rule peakSearch_range)
  moreover have "elemAt (autocorrelation (applyHannWindow buffer)) = storedCorrelation buffer"
    by (rule ext) (simp add: storedCorrelation_def)
  ultimately show ?thesis using le by (simp add: peakSearch_def)
qed

text \<open>Claim C7, as the source has it. For every segment, with \<open>R l\<close> the entry of the
  array \<open>autocorrelation\<close> at the lag \<open>l\<close> (the autocorrelation of the Hann-windowed
  segment as the source has computed and stored it, in single precision) and the lags
  ranging over \<open>minSamples \<le> l < maxSamples\<close>: when no \<open>R l\<close> is greater than 0 the
  estimator returns 0 (no pitch); otherwise it returns \<open>sampleRate / L\<close> for the lag \<open>L\<close>
  with the greatest \<open>R L\<close>, the lowest such lag on ties, and that maximum is greater than
  0. The search starts from the threshold \<open>maxCorrelation = 0\<close>, so it is an argmax over
  the positive correlations only; an entry that is \<open>NaN\<close> is never selected.\<close>

theorem detectPitchAutocorrelation_positive_argmax:
  "((\<forall>l. minSamples \<le> l \<and> l < maxSamples \<longrightarrow> \<not> jsgt (storedCorrelation buffer l) (Num 0)) \<and>
    detectPitchAutocorrelation buffer = 0) \<or>
   (\<exists>L. minSamples \<le> L \<and> L < maxSamples \<and> 0 < L \<and>
        jsgt (storedCorrelation buffer L) (Num 0) \<and>
        (\<forall>l. minSamples \<le> l \<and> l < maxSamples \<longrightarrow>
             \<not> jsgt (storedCorrelation buffer l) (storedCorrelation buffer L)) \<and>
        (\<forall>l. minSamples \<le> l \<and> l < L \<longrightarrow>
             \<not> jsge (storedCorrelation buffer l) (storedCorrelation buffer L)) \<and>
        detectPitchAutocorrelation buffer = sampleRate / real L)"
proof -
  let ?r = "peakSearch (autocorrelation (applyHannWindow buffer))"
  let ?R = "storedCorrelation buffer"
  have pk: "peakOf ?R minSamples maxSamples ?r" by (rule peakSearch_peakOf)
  have m0: "0 < minSamples" by (simp add: minSamples_eq)
  from pk show ?thesis unfolding peakOf_def
  proof (elim disjE conjE exE)
    assume "snd ?r = - 1" "\<forall>i. minSamples \<le> i \<and> i < maxSamples \<longrightarrow> \<not> jsgt (?R i) (Num 0)"
    then show ?thesis by (simp add: detect_of_peak)
  next
    fix L
    assume L: "snd ?r = int L" "minSamples \<le> L" "L < maxSamples" "jsgt (?R L) (Num 0)"
      "\<forall>i. minSamples \<le> i \<and> i < maxSamples \<longrightarrow> \<not> jsgt (?R i) (?R L)"
      "\<forall>i. minSamples \<le> i \<and> i < L \<longrightarrow> \<not> jsge (?R i) (?R L)"
    have "0 < L" using L(2) m0 by simp
    then have "detectPitchAutocorrelation buffer = sampleRate / real L"
      using L(1) by (simp add: detect_of_peak)
    then show ?thesis using L \<open>0 < L\<close> by blast
  qed
qed


text \<open>The Hann window of a segment of \<open>bufferSize\<close> samples. Bounds on the cosine carry
  over to the rounded window value.\<close>

lemma pi_ge_3: "3 \<le> pi"
proof -
  have "sin (pi / 6) \<le> pi / 6" by (intro sin_x_le_x) simp
  then show ?thesis by (simp add: sin_30)
qed

lemma cos_le_half:
  fixes t :: real
  assumes "11 / 8 \<le> t" "t \<le> 5"
  shows "cos t \<le> 1 / 2"
proof (cases "t \<le> pi")
  case True
  have "pi / 3 \<le> t" using assms(1) pi_less_4 by linarith
  then have "cos t \<le> cos (pi / 3)" using True by (intro cos_monotone_0_pi_le) simp_all
  then show ?thesis by (simp add: cos_60)
next
  case False
  have "2 * pi - t \<le> pi" using False by linarith
  moreover have "pi / 3 \<le> 2 * pi - t" using assms(2) pi_ge_3 by linarith
  ultimately have "cos (2 * pi - t) \<le> cos (pi / 3)" by (intro cos_monotone_0_pi_le) simp_all
  then show ?thesis by (simp add: cos_60)
qed

lemma cos_le_zero_mid:
  fixes t :: real
  assumes "2 \<le> t" "t \<le> 9 / 2"
  shows "cos t \<le> 0"
proof -
  have "- (pi / 2) \<le> pi - t" using assms(2) pi_ge_3 by linarith
  moreover have "pi - t \<le> pi / 2" using assms(1) pi_less_4 by linarith
  ultimately have "0 \<le> cos (pi - t)" by (rule cos_ge_zero)
  then show ?thesis by (simp only: cos_pi_minus neg_0_le_iff_le)
qed

lemma cos_ge_half:
  fixes t :: real
  assumes "0 \<le> t" "t \<le> 1"
  shows "1 / 2 \<le> cos t"
proof -
  have "t \<le> pi / 3" using assms(2) pi_ge_3 by linarith
  then have "cos (pi / 3) \<le> cos t" using assms(1) pi_ge_3 by (intro cos_monotone_0_pi_le) linarith+
  then show ?thesis by (simp add: cos_60)
qed

lemma two_mathPI: "toDouble (2 * mathPI) = Num (2 * mathPI)"
proof -
  have "finiteIn (2 * mathPI) (2 * mathPI) (toDouble (2 * mathPI))"
    by (rule toDouble_fence[where a = 884279719003555 and m = 47 and b = 884279719003555 and n = 47])
       (simp_all add: mathPI_def)
  then show ?thesis by (auto elim!: finiteInE)
qed

lemma angle_fence:
  assumes prod: "of_int A \<le> 2 * mathPI * real i" "2 * mathPI * real i \<le> of_int B"
    and AB: "\<bar>A\<bar> < 2 ^ 53" "\<bar>B\<bar> < 2 ^ 53"
    and q: "of_int a / 8 \<le> (of_int A / 4095 :: real)" "(of_int B / 4095 :: real) \<le> of_int b / 8"
    and ab: "\<bar>a\<bar> < 2 ^ 53" "\<bar>b\<bar> < 2 ^ 53"
  shows "finiteIn (of_int a / 8) (of_int b / 8)
           (jsdivCount (jsmul (jsmul (Num 2) (Num mathPI)) (Num (real i))) (bufferSize - 1))"
proof -
  have "finiteIn (of_int A) (of_int B) (toDouble (2 * mathPI * real i))"
    using prod AB by (intro toDouble_fence[where a = A and m = 0 and b = B and n = 0]) simp_all
  then obtain y where y: "toDouble (2 * mathPI * real i) = Num y" "of_int A \<le> y" "y \<le> of_int B"
    by (rule finiteInE)
  have "finiteIn (of_int a / 8) (of_int b / 8) (toDouble (y / 4095))"
  proof (rule toDouble_fence[where a = a and m = 3 and b = b and n = 3])
    have "of_int A / 4095 \<le> y / 4095" using y(2) by (intro divide_right_mono) simp_all
    with q(1) show "of_int a / 8 \<le> y / 4095" by linarith
    have "y / 4095 \<le> of_int B / 4095" using y(3) by (intro divide_right_mono) simp_all
    with q(2) show "y / 4095 \<le> of_int b / 8" by linarith
  qed (use ab in simp_all)
  then show ?thesis by (simp add: two_mathPI y(1) bufferSize_def)
qed

lemma window_of_cos:
  assumes th: "finiteIn tlo thi \<theta>"
    and c: "\<And>t. tlo \<le> t \<Longrightarrow> t \<le> thi \<Longrightarrow> of_int a / 2 \<le> cos t \<and> cos t \<le> of_int b / 2"
    and ab: "\<bar>a\<bar> \<le> 2" "\<bar>b\<bar> \<le> 2"
  shows "finiteIn (of_int (2 - b) / 4) (of_int (2 - a) / 4)
           (jsmul (Num (1 / 2)) (jssub (Num 1) (jscos \<theta>)))"
proof -
  obtain t where t: "\<theta> = Num t" "tlo \<le> t" "t \<le> thi" using th by (rule finiteInE)
  have ct: "of_int a / 2 \<le> cos t" "cos t \<le> of_int b / 2" using c[OF t(2,3)] by simp_all
  have "finiteIn (of_int a / 2) (of_int b / 2) (toDouble (cos t))"
    using ct ab by (intro toDouble_fence[where a = a and m = 1 and b = b and n = 1]) simp_all
  then obtain cv where cv: "toDouble (cos t) = Num cv" "of_int a / 2 \<le> cv" "cv \<le> of_int b / 2"
    by (rule finiteInE)
  have "finiteIn (of_int (2 - b) / 2) (of_int (2 - a) / 2) (toDouble (1 - cv))"
    using cv(2,3) ab
    by (intro toDouble_fence[where a = "2 - b" and m = 1 and b = "2 - a" and n = 1])
       (simp_all add: field_simps)
  then obtain u where u: "toDouble (1 - cv) = Num u" "of_int (2 - b) / 2 \<le> u" "u \<le> of_int (2 - a) / 2"
    by (rule finiteInE)
  have "finiteIn (of_int (2 - b) / 4) (of_int (2 - a) / 4) (toDouble (u / 2))"
    using u(2,3) ab
    by (intro toDouble_fence[where a = "2 - b" and m = 2 and b = "2 - a" and n = 2]) simp_all
  then show ?thesis by (simp add: t(1) cv(1) jssub_def u(1))
qed

lemma windowValue_any:
  assumes "i < bufferSize"
  shows "finiteIn 0 1 (windowValue bufferSize i)"
proof -
  have i: "real i \<le> 4095" using assms by (simp add: bufferSize_def)
  have "finiteIn (of_int 0 / 8) (of_int 64 / 8)
      (jsdivCount (jsmul (jsmul (Num 2) (Num mathPI)) (Num (real i))) (bufferSize - 1))"
  proof (rule angle_fence[where A = 0 and B = 32760])
    show "of_int 0 \<le> 2 * mathPI * real i" by (simp add: mathPI_def)
    show "2 * mathPI * real i \<le> of_int 32760" using i by (simp add: mathPI_def)
  qed simp_all
  then have "finiteIn (of_int (2 - 2) / 4) (of_int (2 - (- 2)) / 4) (windowValue bufferSize i)"
    unfolding windowValue_def
  proof (rule window_of_cos)
    fix t :: real
    show "of_int (- 2) / 2 \<le> cos t \<and> cos t \<le> of_int 2 / 2"
      using cos_ge_minus_one[of t] cos_le_one[of t] by simp
  qed simp_all
  then show ?thesis by simp
qed

lemma windowValue_middle:
  assumes "897 \<le> i" "i \<le> 3258"
  shows "finiteIn (1 / 4) 1 (windowValue bufferSize i)"
proof -
  have i: "897 \<le> real i" "real i \<le> 3258" using assms by simp_all
  have "finiteIn (of_int 11 / 8) (of_int 40 / 8)
      (jsdivCount (jsmul (jsmul (Num 2) (Num mathPI)) (Num (real i))) (bufferSize - 1))"
  proof (rule angle_fence[where A = 5631 and B = 20475])
    show "of_int 5631 \<le> 2 * mathPI * real i" using i(1) by (simp add: mathPI_def)
    show "2 * mathPI * real i \<le> of_int 20475" using i(2) by (simp add: mathPI_def)
  qed simp_all
  then have "finiteIn (of_int (2 - 1) / 4) (of_int (2 - (- 2)) / 4) (windowValue bufferSize i)"
    unfolding windowValue_def
  proof (rule window_of_cos)
    fix t :: real
    assume "of_int 11 / 8 \<le> t" "t \<le> of_int 40 / 8"
    then show "of_int (- 2) / 2 \<le> cos t \<and> cos t \<le> of_int 1 / 2"
      using cos_le_half[of t] cos_ge_minus_one[of t] by simp
  qed simp_all
  then show ?thesis by simp
qed

lemma windowValue_centre:
  assumes "1304 \<le> i" "i \<le> 2932"
  shows "finiteIn (1 / 2) 1 (windowValue bufferSize i)"
proof -
  have i: "1304 \<le> real i" "real i \<le> 2932" using assms by simp_all
  have "finiteIn (of_int 16 / 8) (of_int 36 / 8)
      (jsdivCount (jsmul (jsmul (Num 2) (Num mathPI)) (Num (real i))) (bufferSize - 1))"
  proof (rule angle_fence[where A = 8190 and B = 18427])
    show "of_int 8190 \<le> 2 * mathPI * real i" using i(1) by (simp add: mathPI_def)
    show "2 * mathPI * real i \<le> of_int 18427" using i(2) by (simp add: mathPI_def)
  qed simp_all
  then have "finiteIn (of_int (2 - 0) / 4) (of_int (2 - (- 2)) / 4) (windowValue bufferSize i)"
    unfolding windowValue_def
  proof (rule window_of_cos)
    fix t :: real
    assume "of_int 16 / 8 \<le> t" "t \<le> of_int 36 / 8"
    then show "of_int (- 2) / 2 \<le> cos t \<and> cos t \<le> of_int 0 / 2"
      using cos_le_zero_mid[of t] cos_ge_minus_one[of t] by simp
  qed simp_all
  then show ?thesis by simp
qed

lemma windowValue_edge:
  assumes "i \<le> 651"
  shows "finiteIn 0 (1 / 4) (windowValue bufferSize i)"
proof -
  have i: "real i \<le> 651" using assms by simp
  have "finiteIn (of_int 0 / 8) (of_int 8 / 8)
      (jsdivCount (jsmul (jsmul (Num 2) (Num mathPI)) (Num (real i))) (bufferSize - 1))"
  proof (rule angle_fence[where A = 0 and B = 4095])
    show "of_int 0 \<le> 2 * mathPI * real i" by (simp add: mathPI_def)
    show "2 * mathPI * real i \<le> of_int 4095" using i by (simp add: mathPI_def)
  qed simp_all
  then have "finiteIn (of_int (2 - 2) / 4) (of_int (2 - 1) / 4) (windowValue bufferSize i)"
    unfolding windowValue_def
  proof (rule window_of_cos)
    fix t :: real
    assume "of_int 0 / 8 \<le> t" "t \<le> of_int 8 / 8"
    then show "of_int 1 / 2 \<le> cos t \<and> cos t \<le> of_int 2 / 2"
      using cos_ge_half[of t] cos_le_one[of t] by simp
  qed simp_all
  then show ?thesis by simp
qed

text \<open>The windowed segment, where the sample is 0, 1 or -1.\<close>

lemma windowed_nth:
  "i < length buffer \<Longrightarrow>
     applyHannWindow buffer ! i =
       storeFloat32 (jsmul (buffer ! i) (windowValue (length buffer) i))"
  by (simp add: applyHannWindow_def)

lemma windowed_zero:
  assumes "length buffer = bufferSize" "i < bufferSize" "buffer ! i = Num 0"
  shows "applyHannWindow buffer ! i = Num 0"
proof -
  obtain w where "windowValue bufferSize i = Num w"
    using windowValue_any[OF assms(2)] by (rule finiteInE)
  then show ?thesis using assms by (simp add: windowed_nth)
qed

lemma windowed_one:
  assumes "length buffer = bufferSize" "i < bufferSize" "buffer ! i = Num 1"
    and w: "finiteIn (of_int a / 4) (of_int b / 4) (windowValue bufferSize i)"
    and ab: "\<bar>a\<bar> \<le> 4" "\<bar>b\<bar> \<le> 4"
  shows "finiteIn (of_int a / 4) (of_int b / 4) (applyHannWindow buffer ! i)"
proof -
  obtain wv where wv: "windowValue bufferSize i = Num wv" "of_int a / 4 \<le> wv" "wv \<le> of_int b / 4"
    using w by (rule finiteInE)
  have "finiteIn (of_int a / 4) (of_int b / 4) (toDouble wv)"
    using wv(2,3) ab by (intro toDouble_fence[where a = a and m = 2 and b = b and n = 2]) simp_all
  then obtain v where v: "toDouble wv = Num v" "of_int a / 4 \<le> v" "v \<le> of_int b / 4"
    by (rule finiteInE)
  have "finiteIn (of_int a / 4) (of_int b / 4) (toFloat32 v)"
    using v(2,3) ab by (intro toFloat32_fence[where a = a and m = 2 and b = b and n = 2]) simp_all
  then show ?thesis using assms(1-3) by (simp add: windowed_nth wv(1) v(1))
qed

lemma windowed_minus_one:
  assumes "length buffer = bufferSize" "i < bufferSize" "buffer ! i = Num (- 1)"
    and w: "finiteIn (of_int a / 4) (of_int b / 4) (windowValue bufferSize i)"
    and ab: "\<bar>a\<bar> \<le> 4" "\<bar>b\<bar> \<le> 4"
  shows "finiteIn (of_int (- b) / 4) (of_int (- a) / 4) (applyHannWindow buffer ! i)"
proof -
  obtain wv where wv: "windowValue bufferSize i = Num wv" "of_int a / 4 \<le> wv" "wv \<le> of_int b / 4"
    using w by (rule finiteInE)
  have "finiteIn (of_int (- b) / 4) (of_int (- a) / 4) (toDouble (- wv))"
    using wv(2,3) ab
    by (intro toDouble_fence[where a = "- b" and m = 2 and b = "- a" and n = 2]) simp_all
  then obtain v where v: "toDouble (- wv) = Num v" "of_int (- b) / 4 \<le> v" "v \<le> of_int (- a) / 4"
    by (rule finiteInE)
  have "finiteIn (of_int (- b) / 4) (of_int (- a) / 4) (toFloat32 v)"
    using v(2,3) ab
    by (intro toFloat32_fence[where a = "- b" and m = 2 and b = "- a" and n = 2]) simp_all
  then show ?thesis using assms(1-3) by (simp add: windowed_nth wv(1) v(1))
qed

text \<open>The autocorrelation of a windowed segment with few samples other than 0: at a lag
  where no product is other than 0 the stored sum is 0, and at a lag with one such
  product the stored sum lies within the bounds of that product.\<close>

lemma foldl_sum_zero:
  assumes "\<And>i. i < n \<Longrightarrow> f i = Num 0"
  shows "foldl (\<lambda>s i. jsadd s (f i)) (Num 0) [0..<n] = Num 0"
  using assms by (induction n) simp_all

lemma foldl_sum_single:
  assumes z: "\<And>i. i < n \<Longrightarrow> i \<noteq> p \<Longrightarrow> f i = Num 0"
    and c: "f p = Num c" "of_int a / 16 \<le> c" "c \<le> of_int b / 16"
    and ab: "\<bar>a\<bar> \<le> 16" "\<bar>b\<bar> \<le> 16"
  shows "if n \<le> p then foldl (\<lambda>s i. jsadd s (f i)) (Num 0) [0..<n] = Num 0
         else finiteIn (of_int a / 16) (of_int b / 16) (foldl (\<lambda>s i. jsadd s (f i)) (Num 0) [0..<n])"
  using z
proof (induction n)
  case 0
  show ?case by simp
next
  case (Suc n)
  have ih: "if n \<le> p then foldl (\<lambda>s i. jsadd s (f i)) (Num 0) [0..<n] = Num 0
         else finiteIn (of_int a / 16) (of_int b / 16) (foldl (\<lambda>s i. jsadd s (f i)) (Num 0) [0..<n])"
    using Suc.prems by (intro Suc.IH) simp_all
  have fence: "finiteIn (of_int a / 16) (of_int b / 16) (toDouble s)"
    if "of_int a / 16 \<le> s" "s \<le> of_int b / 16" for s
    using that ab by (intro toDouble_fence[where a = a and m = 4 and b = b and n = 4]) simp_all
  consider (before) "Suc n \<le> p" | (at) "n = p" | (after) "p < n" by linarith
  then show ?case
  proof cases
    case before
    then have "f n = Num 0" using Suc.prems[of n] by simp
    then show ?thesis using ih before by simp
  next
    case at
    then show ?thesis using ih c fence[of c] by simp
  next
    case after
    then have fn: "f n = Num 0" using Suc.prems[of n] by simp
    obtain s where s: "foldl (\<lambda>s i. jsadd s (f i)) (Num 0) [0..<n] = Num s"
      "of_int a / 16 \<le> s" "s \<le> of_int b / 16"
      using ih after by (auto elim!: finiteInE)
    show ?thesis using after fence[OF s(2,3)] by (simp add: s(1) fn)
  qed
qed

lemma product_zero:
  assumes "\<exists>r. x = Num r" "\<exists>r. y = Num r" "x = Num 0 \<or> y = Num 0"
  shows "jsmul x y = Num 0"
  using assms by auto

lemma autocorrelationAt_zero:
  assumes len: "length w = bufferSize"
    and fin: "\<And>i. i < bufferSize \<Longrightarrow> \<exists>r. w ! i = Num r"
    and z: "\<And>i. i < bufferSize - l \<Longrightarrow> w ! i = Num 0 \<or> w ! (i + l) = Num 0"
  shows "autocorrelationAt w l = Num 0"
proof -
  have "jsmul (elemAt w i) (elemAt w (i + l)) = Num 0" if "i < bufferSize - l" for i
  proof -
    have "i < bufferSize" "i + l < bufferSize" using that by simp_all
    then show ?thesis
      using fin[of i] fin[of "i + l"] z[OF that] by (intro product_zero) (simp_all add: elemAt_def len)
  qed
  then have "foldl (\<lambda>s i. jsadd s (jsmul (elemAt w i) (elemAt w (i + l)))) (Num 0) [0..<bufferSize - l]
      = Num 0"
    by (rule foldl_sum_zero)
  then show ?thesis by (simp add: autocorrelationAt_def)
qed

lemma autocorrelationAt_single:
  assumes len: "length w = bufferSize"
    and fin: "\<And>i. i < bufferSize \<Longrightarrow> \<exists>r. w ! i = Num r"
    and p: "p < bufferSize - l" "w ! p = Num x" "w ! (p + l) = Num y"
    and xy: "of_int a / 16 \<le> x * y" "x * y \<le> of_int b / 16"
    and ab: "\<bar>a\<bar> \<le> 16" "\<bar>b\<bar> \<le> 16"
    and z: "\<And>i. i < bufferSize - l \<Longrightarrow> i \<noteq> p \<Longrightarrow> w ! i = Num 0 \<or> w ! (i + l) = Num 0"
  shows "finiteIn (of_int a / 16) (of_int b / 16) (autocorrelationAt w l)"
proof -
  let ?f = "\<lambda>i. jsmul (elemAt w i) (elemAt w (i + l))"
  have zero: "?f i = Num 0" if "i < bufferSize - l" "i \<noteq> p" for i
  proof -
    have "i < bufferSize" "i + l < bufferSize" using that by simp_all
    then show ?thesis
      using fin[of i] fin[of "i + l"] z[OF that] by (intro product_zero) (simp_all add: elemAt_def len)
  qed
  have "finiteIn (of_int a / 16) (of_int b / 16) (toDouble (x * y))"
    using xy ab by (intro toDouble_fence[where a = a and m = 4 and b = b and n = 4]) simp_all
  then obtain c where c: "toDouble (x * y) = Num c" "of_int a / 16 \<le> c" "c \<le> of_int b / 16"
    by (rule finiteInE)
  have "p < bufferSize" "p + l < bufferSize" using p(1) by simp_all
  then have fp: "?f p = Num c" by (simp add: elemAt_def len p(2,3) c(1))
  have "if bufferSize - l \<le> p
        then foldl (\<lambda>s i. jsadd s (?f i)) (Num 0) [0..<bufferSize - l] = Num 0
        else finiteIn (of_int a / 16) (of_int b / 16)
               (foldl (\<lambda>s i. jsadd s (?f i)) (Num 0) [0..<bufferSize - l])"
    using zero fp c(2,3) ab by (rule foldl_sum_single)
  then obtain s where s: "foldl (\<lambda>s i. jsadd s (?f i)) (Num 0) [0..<bufferSize - l] = Num s"
    "of_int a / 16 \<le> s" "s \<le> of_int b / 16"
    using p(1) by (auto elim!: finiteInE)
  have "finiteIn (of_int a / 16) (of_int b / 16) (toFloat32 s)"
    using s(2,3) ab by (intro toFloat32_fence[where a = a and m = 4 and b = b and n = 4]) simp_all
  then show ?thesis by (simp add: autocorrelationAt_def s(1))
qed

lemma storedCorrelation_eq:
  "l < bufferSize \<Longrightarrow> storedCorrelation seg l = autocorrelationAt (applyHannWindow seg) l"
  by (simp add: storedCorrelation_def elemAt_autocorrelation)

text \<open>When one lag of the range has a correlation greater than 0 and greater than that of
  every other lag, the estimate is the sample rate over that lag.\<close>

lemma detect_unique_peak:
  assumes L: "minSamples \<le> L" "L < maxSamples"
    and pos: "jsgt (storedCorrelation seg L) (Num 0)"
    and oth: "\<And>l. minSamples \<le> l \<Longrightarrow> l < maxSamples \<Longrightarrow> l \<noteq> L \<Longrightarrow>
                jsgt (storedCorrelation seg L) (storedCorrelation seg l)"
  shows "detectPitchAutocorrelation seg = sampleRate / real L"
proof -
  let ?R = "storedCorrelation seg"
  let ?r = "peakSearch (autocorrelation (applyHannWindow seg))"
  have pk: "peakOf ?R minSamples maxSamples ?r" by (rule peakSearch_peakOf)
  have "snd ?r = int L"
    using pk unfolding peakOf_def
  proof (elim disjE conjE exE)
    assume "\<forall>i. minSamples \<le> i \<and> i < maxSamples \<longrightarrow> \<not> jsgt (?R i) (Num 0)"
    then show ?thesis using L pos by blast
  next
    fix L'
    assume L': "snd ?r = int L'" "minSamples \<le> L'" "L' < maxSamples"
      "\<forall>i. minSamples \<le> i \<and> i < maxSamples \<longrightarrow> \<not> jsgt (?R i) (?R L')"
    have "L' = L"
    proof (rule ccontr)
      assume "L' \<noteq> L"
      then have "jsgt (?R L) (?R L')" using L'(2,3) by (intro oth)
      then show False using L'(4) L by blast
    qed
    then show ?thesis using L'(1) by simp
  qed
  moreover have "0 < L" using L(1) by (simp add: minSamples_eq)
  ultimately show ?thesis by (simp add: detect_of_peak)
qed


text \<open>A segment that is 0 except at two positions \<open>p < q\<close>: the stored correlation is 0 at
  every lag other than \<open>q - p\<close>, and at \<open>q - p\<close> it lies within the bounds of the product
  of the two windowed samples.\<close>

lemma two_impulse_correlations:
  assumes len: "length seg = bufferSize"
    and zero: "\<And>i. i < bufferSize \<Longrightarrow> i \<noteq> p \<Longrightarrow> i \<noteq> q \<Longrightarrow> seg ! i = Num 0"
    and wp: "applyHannWindow seg ! p = Num x" and wq: "applyHannWindow seg ! q = Num y"
    and pq: "p < q" "q < bufferSize"
  shows "0 < l \<Longrightarrow> l < bufferSize \<Longrightarrow> l \<noteq> q - p \<Longrightarrow> storedCorrelation seg l = Num 0"
    and "of_int a / 16 \<le> x * y \<Longrightarrow> x * y \<le> of_int b / 16 \<Longrightarrow> \<bar>a\<bar> \<le> 16 \<Longrightarrow> \<bar>b\<bar> \<le> 16 \<Longrightarrow>
           finiteIn (of_int a / 16) (of_int b / 16) (storedCorrelation seg (q - p))"
proof -
  let ?w = "applyHannWindow seg"
  have lenw: "length ?w = bufferSize" by (simp add: applyHannWindow_def len)
  have w0: "?w ! i = Num 0" if "i < bufferSize" "i \<noteq> p" "i \<noteq> q" for i
    using len that(1) zero[OF that] by (rule windowed_zero)
  have fin: "\<exists>r. ?w ! i = Num r" if "i < bufferSize" for i
    using w0[OF that] wp wq by (cases "i = p"; cases "i = q") auto
  show "storedCorrelation seg l = Num 0" if l: "0 < l" "l < bufferSize" "l \<noteq> q - p"
  proof -
    have "autocorrelationAt ?w l = Num 0"
    proof (rule autocorrelationAt_zero[OF lenw fin])
      fix i assume i: "i < bufferSize - l"
      show "?w ! i = Num 0 \<or> ?w ! (i + l) = Num 0"
      proof (cases "i = p \<or> i = q")
        case True
        then have "i + l \<noteq> p" "i + l \<noteq> q" using l pq by auto
        moreover have "i + l < bufferSize" using i by simp
        ultimately show ?thesis using w0 by blast
      next
        case False
        moreover have "i < bufferSize" using i by simp
        ultimately show ?thesis using w0 by blast
      qed
    qed
    then show ?thesis using l(2) by (simp add: storedCorrelation_eq)
  qed
  show "finiteIn (of_int a / 16) (of_int b / 16) (storedCorrelation seg (q - p))"
    if xy: "of_int a / 16 \<le> x * y" "x * y \<le> of_int b / 16" and ab: "\<bar>a\<bar> \<le> 16" "\<bar>b\<bar> \<le> 16"
  proof -
    have "finiteIn (of_int a / 16) (of_int b / 16) (autocorrelationAt ?w (q - p))"
    proof (rule autocorrelationAt_single[OF lenw fin _ _ _ xy ab])
      show "p < bufferSize - (q - p)" using pq by simp
      show "?w ! p = Num x" by (rule wp)
      show "?w ! (p + (q - p)) = Num y" using pq wq by simp
      fix i assume i: "i < bufferSize - (q - p)" "i \<noteq> p"
      show "?w ! i = Num 0 \<or> ?w ! (i + (q - p)) = Num 0"
      proof (cases "i = q")
        case True
        then have "i + (q - p) \<noteq> p" "i + (q - p) \<noteq> q" using pq by auto
        moreover have "i + (q - p) < bufferSize" using i by simp
        ultimately show ?thesis using w0 by blast
      next
        case False
        moreover have "i < bufferSize" using i by simp
        ultimately show ?thesis using w0 i(2) by blast
      qed
    qed
    then show ?thesis using pq by (simp add: storedCorrelation_eq)
  qed
qed

lemma detect_two_impulses:
  assumes len: "length seg = bufferSize"
    and zero: "\<And>i. i < bufferSize \<Longrightarrow> i \<noteq> p \<Longrightarrow> i \<noteq> q \<Longrightarrow> seg ! i = Num 0"
    and ones: "seg ! p = Num 1" "seg ! q = Num 1"
    and pq: "897 \<le> p" "p < q" "q \<le> 3258"
    and lag: "minSamples \<le> q - p" "q - p < maxSamples"
  shows "detectPitchAutocorrelation seg = sampleRate / real (q - p)"
    and "finiteIn (1 / 16) 1 (storedCorrelation seg (q - p))"
    and "minSamples \<le> l \<Longrightarrow> l < maxSamples \<Longrightarrow> l \<noteq> q - p \<Longrightarrow> storedCorrelation seg l = Num 0"
proof -
  have b: "p < bufferSize" "q < bufferSize" using pq by (simp_all add: bufferSize_def)
  have "finiteIn (of_int 1 / 4) (of_int 4 / 4) (applyHannWindow seg ! p)"
    using windowValue_middle[of p] pq
    by (intro windowed_one[OF len b(1) ones(1)]) simp_all
  then obtain x where x: "applyHannWindow seg ! p = Num x" "1 / 4 \<le> x" "x \<le> 1"
    by (auto elim!: finiteInE)
  have "finiteIn (of_int 1 / 4) (of_int 4 / 4) (applyHannWindow seg ! q)"
    using windowValue_middle[of q] pq
    by (intro windowed_one[OF len b(2) ones(2)]) simp_all
  then obtain y where y: "applyHannWindow seg ! q = Num y" "1 / 4 \<le> y" "y \<le> 1"
    by (auto elim!: finiteInE)
  have "(1 / 4) * (1 / 4) \<le> x * y" using x(2) y(2) by (intro mult_mono) simp_all
  moreover have "x * y \<le> 1 * 1" using x y by (intro mult_mono) simp_all
  ultimately have "finiteIn (of_int 1 / 16) (of_int 16 / 16) (storedCorrelation seg (q - p))"
    by (intro two_impulse_correlations(2)[OF len zero x(1) y(1) pq(2) b(2)]) simp_all
  then show R: "finiteIn (1 / 16) 1 (storedCorrelation seg (q - p))" by simp
  show Z: "storedCorrelation seg l = Num 0" if "minSamples \<le> l" "l < maxSamples" "l \<noteq> q - p" for l
  proof (rule two_impulse_correlations(1)[OF len zero x(1) y(1) pq(2) b(2)])
    show "0 < l" using that(1) by (simp add: minSamples_eq)
    show "l < bufferSize" using that(2) maxSamples_le_bufferSize by simp
    show "l \<noteq> q - p" by (rule that(3))
  qed
  obtain r where r: "storedCorrelation seg (q - p) = Num r" "1 / 16 \<le> r"
    using R by (auto elim!: finiteInE)
  show "detectPitchAutocorrelation seg = sampleRate / real (q - p)"
  proof (rule detect_unique_peak[OF lag])
    show "jsgt (storedCorrelation seg (q - p)) (Num 0)" using r by simp
    show "jsgt (storedCorrelation seg (q - p)) (storedCorrelation seg l)"
      if "minSamples \<le> l" "l < maxSamples" "l \<noteq> q - p" for l
      using Z[OF that] r by simp
  qed
qed

lemma length_impulses: "length (impulses n ps) = n"
  by (simp add: impulses_def)

lemma impulses_nth: "i < n \<Longrightarrow> impulses n ps ! i = (if i \<in> set ps then Num 1 else Num 0)"
  by (simp add: impulses_def)

text \<open>A segment with two unit impulses 100 samples apart: the correlation at the lag 100
  is the only one greater than 0, and the estimate is 44100 / 100.\<close>

theorem detectPitchAutocorrelation_positive_argmax_witness:
  "finiteIn (1 / 16) 1 (storedCorrelation (impulses bufferSize [1000, 1100]) 100) \<and>
   storedCorrelation (impulses bufferSize [1000, 1100]) 44 = Num 0 \<and>
   storedCorrelation (impulses bufferSize [1000, 1100]) 551 = Num 0 \<and>
   detectPitchAutocorrelation (impulses bufferSize [1000, 1100]) = 441"
proof -
  let ?seg = "impulses bufferSize [1000, 1100]"
  let ?R = "storedCorrelation ?seg"
  have len: "length ?seg = bufferSize" by (rule length_impulses)
  have b: "(1000::nat) < bufferSize" "(1100::nat) < bufferSize" by (simp_all add: bufferSize_def)
  have z: "\<And>i. i < bufferSize \<Longrightarrow> i \<noteq> 1000 \<Longrightarrow> i \<noteq> 1100 \<Longrightarrow> ?seg ! i = Num 0"
    by (simp add: impulses_nth)
  have o: "?seg ! 1000 = Num 1" "?seg ! 1100 = Num 1" using b by (simp_all add: impulses_nth)
  have r100: "minSamples \<le> 1100 - 1000" "1100 - 1000 < maxSamples"
    by (simp_all add: minSamples_eq maxSamples_eq)
  have R: "finiteIn (1 / 16) 1 (?R 100)"
    using detect_two_impulses(2)[OF len z o _ _ _ r100] by simp
  have Z: "?R l = Num 0" if "minSamples \<le> l" "l < maxSamples" "l \<noteq> 100" for l
    using detect_two_impulses(3)[OF len z o _ _ _ r100, of l] that by simp
  obtain r where r: "?R 100 = Num r" "1 / 16 \<le> r" using R by (auto elim!: finiteInE)
  have "detectPitchAutocorrelation ?seg = 441"
    using detectPitchAutocorrelation_positive_argmax[of ?seg]
  proof (elim disjE conjE exE)
    assume "\<forall>l. minSamples \<le> l \<and> l < maxSamples \<longrightarrow> \<not> jsgt (?R l) (Num 0)"
    then have "\<not> jsgt (?R 100) (Num 0)" using r100 by simp
    then show ?thesis using r by simp
  next
    fix L assume L: "minSamples \<le> L" "L < maxSamples" "jsgt (?R L) (Num 0)"
      "detectPitchAutocorrelation ?seg = sampleRate / real L"
    have "L = 100"
    proof (rule ccontr)
      assume "L \<noteq> 100"
      then have "?R L = Num 0" using L(1,2) by (intro Z)
      then show False using L(3) by simp
    qed
    then show ?thesis using L(4) by (simp add: sampleRate_def)
  qed
  moreover have "?R 44 = Num 0" "?R 551 = Num 0"
    by (rule Z; simp add: minSamples_eq maxSamples_eq)+
  ultimately show ?thesis using R by simp
qed

lemma detect_no_positive:
  assumes "\<And>l. minSamples \<le> l \<Longrightarrow> l < maxSamples \<Longrightarrow> \<not> jsgt (storedCorrelation seg l) (Num 0)"
  shows "detectPitchAutocorrelation seg = 0"
proof -
  let ?r = "peakSearch (autocorrelation (applyHannWindow seg))"
  have pk: "peakOf (storedCorrelation seg) minSamples maxSamples ?r" by (rule peakSearch_peakOf)
  have "snd ?r = - 1"
    using pk unfolding peakOf_def
  proof (elim disjE conjE exE)
    fix L assume "minSamples \<le> L" "L < maxSamples" "jsgt (storedCorrelation seg L) (Num 0)"
    then show ?thesis using assms by blast
  qed simp
  then show ?thesis by (simp add: detect_of_peak)
qed

lemma antiphase_length: "length antiphase = bufferSize"
  by (simp add: antiphase_def)

lemma antiphase_nth:
  "i < bufferSize \<Longrightarrow>
     antiphase ! i = (if i = 1000 then Num 1 else if i = 1044 then Num (- 1) else Num 0)"
  by (simp add: antiphase_def)

lemma antiphase_correlations:
  "finiteIn (- 1) (- (1 / 16)) (storedCorrelation antiphase 44)"
  "44 < l \<Longrightarrow> l < maxSamples \<Longrightarrow> storedCorrelation antiphase l = Num 0"
proof -
  have b: "(1000::nat) < bufferSize" "(1044::nat) < bufferSize" by (simp_all add: bufferSize_def)
  have z: "\<And>i. i < bufferSize \<Longrightarrow> i \<noteq> 1000 \<Longrightarrow> i \<noteq> 1044 \<Longrightarrow> antiphase ! i = Num 0"
    by (simp add: antiphase_nth)
  have "finiteIn (of_int 1 / 4) (of_int 4 / 4) (applyHannWindow antiphase ! 1000)"
    using windowValue_middle[of 1000] b
    by (intro windowed_one[OF antiphase_length]) (simp_all add: antiphase_nth)
  then obtain x where x: "applyHannWindow antiphase ! 1000 = Num x" "1 / 4 \<le> x" "x \<le> 1"
    by (auto elim!: finiteInE)
  have "finiteIn (of_int (- 4) / 4) (of_int (- 1) / 4) (applyHannWindow antiphase ! 1044)"
    using windowValue_middle[of 1044] b
    by (intro windowed_minus_one[OF antiphase_length, where a = 1 and b = 4])
       (simp_all add: antiphase_nth)
  then obtain y where y: "applyHannWindow antiphase ! 1044 = Num y" "- 1 \<le> y" "y \<le> - (1 / 4)"
    by (auto elim!: finiteInE)
  have "(1 / 4) * (1 / 4) \<le> x * (- y)" using x(2) y(3) by (intro mult_mono) simp_all
  moreover have "x * (- y) \<le> 1 * 1" using x y by (intro mult_mono) simp_all
  ultimately have xy: "- 1 \<le> x * y" "x * y \<le> - (1 / 16)" by simp_all
  have "finiteIn (of_int (- 16) / 16) (of_int (- 1) / 16) (storedCorrelation antiphase (1044 - 1000))"
    using xy by (intro two_impulse_correlations(2)[OF antiphase_length z x(1) y(1) _ b(2)]) simp_all
  then show "finiteIn (- 1) (- (1 / 16)) (storedCorrelation antiphase 44)" by simp
  show "storedCorrelation antiphase l = Num 0" if "44 < l" "l < maxSamples"
  proof (rule two_impulse_correlations(1)[OF antiphase_length z x(1) y(1) _ b(2)])
    show "l < bufferSize" using that(2) maxSamples_le_bufferSize by simp
  qed (use that in simp_all)
qed

lemma foldl_argmax_stays:
  assumes "\<forall>l \<in> set ls. \<not> jsgt (R l) (R b)"
  shows "foldl (\<lambda>best l. if jsgt (R l) (R best) then l else best) b ls = b"
  using assms by (induction ls) simp_all

lemma antiphase_spec: "spec_estimate antiphase = Some 980"
proof -
  let ?R = "storedCorrelation antiphase"
  obtain r where r44: "?R 44 = Num r" "r \<le> - (1 / 16)"
    using antiphase_correlations(1) by (auto elim!: finiteInE)
  have r0: "?R l = Num 0" if "44 < l" "l < maxSamples" for l
    using that by (rule antiphase_correlations(2))
  have "[minSamples + 1..<maxSamples] = 45 # [46..<maxSamples]"
    by (simp add: minSamples_eq maxSamples_eq upt_conv_Cons)
  moreover have r45: "?R 45 = Num 0" using r0[of 45] by (simp add: maxSamples_eq)
  then have "jsgt (?R 45) (?R 44)" using r44 by simp
  ultimately have "spec_argmaxLag ?R minSamples maxSamples =
      foldl (\<lambda>best l. if jsgt (?R l) (?R best) then l else best) 45 [46..<maxSamples]"
    by (simp add: spec_argmaxLag_def minSamples_eq)
  also have "\<dots> = 45"
  proof (rule foldl_argmax_stays)
    show "\<forall>l \<in> set [46..<maxSamples]. \<not> jsgt (?R l) (?R 45)"
      using r0 r45 by simp
  qed
  finally show ?thesis by (simp add: spec_estimate_def sampleRate_def)
qed

lemma antiphase_detect: "detectPitchAutocorrelation antiphase = 0"
proof (rule detect_no_positive)
  fix l assume l: "minSamples \<le> l" "l < maxSamples"
  show "\<not> jsgt (storedCorrelation antiphase l) (Num 0)"
  proof (cases "l = 44")
    case True
    obtain r where "storedCorrelation antiphase 44 = Num r" "r \<le> - (1 / 16)"
      using antiphase_correlations(1) by (auto elim!: finiteInE)
    then show ?thesis using True by simp
  next
    case False
    then have "44 < l" using l(1) by (simp add: minSamples_eq)
    then show ?thesis using antiphase_correlations(2)[of l] l(2) by simp
  qed
qed

text \<open>Claim C7 as the specification states it fails on \<open>antiphase\<close>: the stored
  correlation is negative at the lag 44 and zero at every other lag of the range, so a
  pure argmax with ties to the lowest lag selects the lag 45 and estimates
  44100 / 45 = 980 Hz, inside the detection range, while the source finds no correlation
  above 0 and returns 0, no pitch.\<close>

theorem detectPitchAutocorrelation_not_pure_argmax:
  "spec_estimate antiphase = Some 980 \<and> inRange 980 \<and>
   detectPitchAutocorrelation antiphase = 0"
  using antiphase_spec antiphase_detect
  by (simp add: inRange_def minFrequency_def maxFrequency_def)

section \<open>Silence\<close>

lemma silent_jsmul: "silent x \<Longrightarrow> silent (jsmul x y)"
  by (cases y) (auto simp: silent_def)

lemma silent_jsadd: "silent x \<Longrightarrow> silent y \<Longrightarrow> silent (jsadd x y)"
  by (auto simp: silent_def)

lemma silent_storeFloat32: "silent x \<Longrightarrow> silent (storeFloat32 x)"
  by (auto simp: silent_def)

lemma silent_jsdivCount: "silent x \<Longrightarrow> silent (jsdivCount x n)"
  by (cases "n = 0") (auto simp: silent_def)

lemma silent_elemAt: "list_all silent xs \<Longrightarrow> silent (elemAt xs i)"
  by (simp add: elemAt_def list_all_length) (simp add: silent_def)

lemma silent_applyHannWindow: "list_all silent buffer \<Longrightarrow> list_all silent (applyHannWindow buffer)"
  by (simp add: applyHannWindow_def list_all_length silent_jsmul silent_storeFloat32)

lemma silent_foldl_jsadd:
  "silent s \<Longrightarrow> (\<And>i. silent (f i)) \<Longrightarrow> silent (foldl (\<lambda>sum i. jsadd sum (f i)) s is)"
  by (induction "is" arbitrary: s) (simp_all add: silent_jsadd)

lemma silent_autocorrelationAt:
  assumes "list_all silent w"
  shows "silent (autocorrelationAt w lag)"
  unfolding autocorrelationAt_def
  by (intro silent_storeFloat32 silent_foldl_jsadd)
     (simp_all add: silent_def[of "Num 0"] silent_jsmul silent_elemAt[OF assms])

lemma silent_autocorrelation: "list_all silent w \<Longrightarrow> list_all silent (autocorrelation w)"
  by (simp add: autocorrelation_def list_all_length silent_autocorrelationAt)

lemma silent_not_positive: "silent x \<Longrightarrow> \<not> jsgt x (Num 0)"
  by (auto simp: silent_def)

lemma detectPitchAutocorrelation_silent:
  assumes "list_all silent buffer"
  shows "detectPitchAutocorrelation buffer = 0"
proof (rule detect_no_positive)
  fix l
  have "list_all silent (autocorrelation (applyHannWindow buffer))"
    using assms by (intro silent_autocorrelation silent_applyHannWindow)
  then have "silent (storedCorrelation buffer l)"
    unfolding storedCorrelation_def by (rule silent_elemAt)
  then show "\<not> jsgt (storedCorrelation buffer l) (Num 0)" by (rule silent_not_positive)
qed

lemma silent_convertToMono:
  assumes "digitalSilence b"
  shows "list_all silent (convertToMono b)"
proof (cases "numberOfChannels b = 1")
  case True
  then have "channelData b ! 0 \<in> set (channelData b)" by (simp add: numberOfChannels_def)
  then have "list_all (\<lambda>s. s = Num 0) (channelData b ! 0)"
    using assms by (simp add: digitalSilence_def list_all_iff)
  then have "list_all silent (channelData b ! 0)"
    by (simp add: list_all_iff silent_def)
  then show ?thesis using True by (simp add: convertToMono_def)
next
  case False
  have ch: "silent (elemAt ch i)" if "ch \<in> set (channelData b)" for ch i
  proof -
    have "list_all (\<lambda>s. s = Num 0) ch" using assms that by (simp add: digitalSilence_def list_all_iff)
    then have "list_all silent ch" by (simp add: list_all_iff silent_def)
    then show ?thesis by (rule silent_elemAt)
  qed
  have "silent (foldl (\<lambda>sum ch. jsadd sum (elemAt ch i)) s chs)"
    if "silent s" "set chs \<subseteq> set (channelData b)" for i s chs
    using that by (induction chs arbitrary: s) (simp_all add: silent_jsadd ch)
  then have "silent (foldl (\<lambda>sum ch. jsadd sum (elemAt ch i)) (Num 0) (channelData b))" for i
    by (simp add: silent_def)
  then show ?thesis using False
    by (simp add: convertToMono_def list_all_iff silent_jsdivCount silent_storeFloat32)
qed

lemma silent_segments:
  assumes "list_all silent xs" "s \<in> set (segmentAudio xs)"
  shows "list_all silent s"
proof -
  obtain j where "s = take bufferSize (drop (j * (bufferSize div 2)) xs)"
    using assms(2) by (auto simp: segmentAudio_eq)
  then have "set s \<subseteq> set xs" by (metis set_drop_subset set_take_subset subset_trans)
  then show ?thesis using assms(1) by (auto simp: list_all_iff)
qed

lemma pitchesFrom_silent:
  "(\<And>s. s \<in> set segs \<Longrightarrow> list_all silent s) \<Longrightarrow> pitchesFrom i segs = []"
  by (induction segs arbitrary: i)
     (simp_all add: detectPitchAutocorrelation_silent minFrequency_def)

lemma convertToMusicalNotation_Nil: "convertToMusicalNotation [] = emptyResult"
  by (simp add: convertToMusicalNotation_def emptyResult_def generateSimpleNotes_def
      generateSheetMusic_def detectChords_def groupByWindow_def objectKeys_def)

text \<open>Claim C8. On a buffer of digital silence (every sample of every channel is zero)
  \<open>analyzeAudio\<close> returns the result whose \<open>rawPitchData\<close>, \<open>simpleNotes\<close> and
  \<open>complexChords\<close> are empty (and whose sheet music has no note).\<close>

theorem analyzeAudio_silence:
  assumes "digitalSilence b"
  shows "analyzeAudio b = Inr emptyResult"
proof -
  have "pitchesFrom 0 (segmentAudio (convertToMono b)) = []"
    by (rule pitchesFrom_silent) (rule silent_segments[OF silent_convertToMono[OF assms]])
  then show ?thesis
    by (simp add: analyzeAudio_def detectPitches_def convertToMusicalNotation_Nil)
qed

text \<open>Two channels of 10000 zeros: three segments are analysed and none gives a pitch.\<close>

theorem analyzeAudio_silence_witness:
  "digitalSilence \<lparr>channelData = [replicate 10000 (Num 0), replicate 10000 (Num 0)], bufferLength = 10000\<rparr> \<and>
   analyzeAudio \<lparr>channelData = [replicate 10000 (Num 0), replicate 10000 (Num 0)], bufferLength = 10000\<rparr>
     = Inr \<lparr>simpleNotes = [], complexChords = [],
      sheetMusicOf = \<lparr>sheetNotes = [], timeSignature = (4, 4), clef = ''treble''\<rparr>,
      rawPitchData = []\<rparr>"
proof -
  have d: "digitalSilence \<lparr>channelData = [replicate 10000 (Num 0), replicate 10000 (Num 0)], bufferLength = 10000\<rparr>"
    by (simp add: digitalSilence_def list_all_iff)
  show ?thesis using d analyzeAudio_silence[OF d] by (simp add: emptyResult_def)
qed

section \<open>Impulse signals through the pipeline\<close>

lemma detect_impulse_segment:
  assumes n: "k + bufferSize \<le> n"
    and only: "\<And>x. x \<in> set ps \<Longrightarrow> x = k + p \<or> x = k + q \<or> x < k \<or> k + bufferSize \<le> x"
    and mem: "k + p \<in> set ps" "k + q \<in> set ps"
    and pq: "897 \<le> p" "p < q" "q \<le> 3258"
    and lag: "minSamples \<le> q - p" "q - p < maxSamples"
  shows "detectPitchAutocorrelation (take bufferSize (drop k (impulses n ps))) = sampleRate / real (q - p)"
proof (rule detect_two_impulses(1)[OF _ _ _ _ pq lag])
  let ?seg = "take bufferSize (drop k (impulses n ps))"
  show "length ?seg = bufferSize" using n by (simp add: length_impulses)
  have nth: "?seg ! i = (if k + i \<in> set ps then Num 1 else Num 0)" if "i < bufferSize" for i
    using that n by (simp add: length_impulses impulses_nth)
  show "?seg ! i = Num 0" if "i < bufferSize" "i \<noteq> p" "i \<noteq> q" for i
  proof -
    have "k + i \<notin> set ps" using only[of "k + i"] that by auto
    then show ?thesis using nth[OF that(1)] by simp
  qed
  have "p < bufferSize" "q < bufferSize" using pq by (simp_all add: bufferSize_def)
  then show "?seg ! p = Num 1" "?seg ! q = Num 1" using mem nth[of p] nth[of q] by simp_all
qed

lemma segmentCount_6145: "segmentCount 0 6145 = 2"
  by (simp add: segmentCount_def bufferSize_def)

lemma segments_6145:
  "segmentAudio (impulses 6145 ps) =
     [take bufferSize (impulses 6145 ps), take bufferSize (drop 2048 (impulses 6145 ps))]"
proof -
  have "[0..<2] = [0, Suc 0]" by (simp add: upt_rec)
  then show ?thesis
    by (simp add: segmentAudio_eq length_impulses segmentCount_6145) (simp add: bufferSize_def)
qed

lemma heldNote_segment0:
  "detectPitchAutocorrelation (take bufferSize (impulses 6145 [3000, 3100])) = 441"
proof -
  have "detectPitchAutocorrelation (take bufferSize (drop 0 (impulses 6145 [3000, 3100])))
      = sampleRate / real (3100 - 3000 :: nat)"
    by (rule detect_impulse_segment)
       (auto simp: bufferSize_def minSamples_eq maxSamples_eq)
  then show ?thesis by (simp add: sampleRate_def)
qed

lemma heldNote_segment1:
  "detectPitchAutocorrelation (take bufferSize (drop 2048 (impulses 6145 [3000, 3100]))) = 441"
proof -
  have "detectPitchAutocorrelation (take bufferSize (drop 2048 (impulses 6145 [3000, 3100])))
      = sampleRate / real (1052 - 952 :: nat)"
    by (rule detect_impulse_segment)
       (auto simp: bufferSize_def minSamples_eq maxSamples_eq)
  then show ?thesis by (simp add: sampleRate_def)
qed

lemma heldNote_mono: "convertToMono heldNote = impulses 6145 [3000, 3100]"
  by (simp add: convertToMono_def heldNote_def numberOfChannels_def)

lemma heldNote_pitches:
  "pitchesFrom 0 (segmentAudio (convertToMono heldNote)) =
     [\<lparr>frequency = 441, pitchNote = frequencyToNote 441, startTime = 0, endTime = 4096 / 44100\<rparr>,
      \<lparr>frequency = 441, pitchNote = frequencyToNote 441, startTime = 2048 / 44100,
        endTime = 6144 / 44100\<rparr>]"
  by (simp add: heldNote_mono segments_6145 heldNote_segment0 heldNote_segment1 Let_def
      minFrequency_def maxFrequency_def)
     (simp add: segmentDuration_def bufferSize_def sampleRate_def)

text \<open>Claim C4 as the specification states it fails: both segments of \<open>heldNote\<close> give the
  frequency 441 Hz, inside the detection range, and \<open>rawPitchData\<close> has one entry, the
  merged note from 0 to 6144/44100 s, not one entry for each of the two segments.\<close>

theorem rawPitchData_not_per_segment:
  "map detectPitchAutocorrelation (segmentAudio (convertToMono heldNote)) = [441, 441] \<and>
   (case analyzeAudio heldNote of
      Inr r \<Rightarrow> map (\<lambda>p. (frequency p, startTime p, endTime p)) (rawPitchData r)
                = [(441, 0, 6144 / 44100)]
    | Inl e \<Rightarrow> False)"
proof -
  have "map detectPitchAutocorrelation (segmentAudio (convertToMono heldNote)) = [441, 441]"
    by (simp add: heldNote_mono segments_6145 heldNote_segment0 heldNote_segment1)
  moreover have "detectPitches (segmentAudio (convertToMono heldNote)) =
     [\<lparr>frequency = 441, pitchNote = frequencyToNote 441, startTime = 0, endTime = 6144 / 44100\<rparr>]"
    unfolding detectPitches_def heldNote_pitches by simp
  ultimately show ?thesis
    by (simp add: analyzeAudio_def convertToMusicalNotation_def Let_def)
qed

lemma log2_441_440: "0 \<le> log 2 (441 / 440)" "24 * log 2 (441 / 440) < 1"
proof -
  show "0 \<le> log 2 (441 / 440)" by simp
  have "24 * log 2 (441 / 440) = log 2 ((441 / 440) ^ 24)"
    by (simp add: log_nat_power)
  also have "\<dots> < log 2 2"
    by (subst log_less_cancel_iff) (simp_all add: power_divide)
  finally show "24 * log 2 (441 / 440) < 1" by simp
qed

lemma round_between:
  fixes x :: real
  assumes "real_of_int s - 1 / 2 \<le> x" "x < real_of_int s + 1 / 2"
  shows "round x = s"
  using assms by (intro round_unique) linarith+

lemma semitones_441: "round (12 * log 2 (441 / 440)) = 0"
proof (rule round_between)
  show "real_of_int 0 - 1 / 2 \<le> 12 * log 2 (441 / 440)"
    using log2_441_440(1) by linarith
  show "12 * log 2 (441 / 440) < real_of_int 0 + 1 / 2"
    using log2_441_440(2) by linarith
qed

lemma semitones_882: "round (12 * log 2 (882 / 440)) = 12"
proof (rule round_between)
  have "log 2 (882 / 440) = log 2 (2 * (441 / 440))" by simp
  also have "\<dots> = 1 + log 2 (441 / 440)" by (subst log_mult) simp_all
  finally have x: "12 * log 2 (882 / 440) = 12 + 12 * log 2 (441 / 440)" by simp
  show "real_of_int 12 - 1 / 2 \<le> 12 * log 2 (882 / 440)"
    unfolding x using log2_441_440(1) by simp
  show "12 * log 2 (882 / 440) < real_of_int 12 + 1 / 2"
    unfolding x using log2_441_440(2) by simp
qed

lemma frequencyToNote_semitones:
  assumes "round (12 * log 2 (f / 440)) = s"
  shows "name (frequencyToNote f) = noteNames ! nat ((s + 9) mod 12)"
    and "octave (frequencyToNote f) =
           (if (s + 9) mod 12 < 3 then 4 + (s + 9) div 12 - 1 else 4 + (s + 9) div 12)"
  unfolding frequencyToNote_def Let_def assms
  using jsrem_fix[of 12 "s + 9"] by simp_all

lemma note_441: "name (frequencyToNote 441) = ''F#''" "octave (frequencyToNote 441) = 4"
  using frequencyToNote_semitones[OF semitones_441] by (simp_all add: noteNames_def)

lemma note_882: "name (frequencyToNote 882) = ''F#''" "octave (frequencyToNote 882) = 5"
  using frequencyToNote_semitones[OF semitones_882] by (simp_all add: noteNames_def)

lemma twoNotes_segment0:
  "detectPitchAutocorrelation (take bufferSize (impulses 6145 [1000, 1100, 5000, 5050])) = 441"
proof -
  have "detectPitchAutocorrelation (take bufferSize (drop 0 (impulses 6145 [1000, 1100, 5000, 5050])))
      = sampleRate / real (1100 - 1000 :: nat)"
    by (rule detect_impulse_segment)
       (auto simp: bufferSize_def minSamples_eq maxSamples_eq)
  then show ?thesis by (simp add: sampleRate_def)
qed

lemma twoNotes_segment1:
  "detectPitchAutocorrelation (take bufferSize (drop 2048 (impulses 6145 [1000, 1100, 5000, 5050]))) = 882"
proof -
  have "detectPitchAutocorrelation (take bufferSize (drop 2048 (impulses 6145 [1000, 1100, 5000, 5050])))
      = sampleRate / real (3002 - 2952 :: nat)"
    by (rule detect_impulse_segment)
       (auto simp: bufferSize_def minSamples_eq maxSamples_eq)
  then show ?thesis by (simp add: sampleRate_def)
qed

lemma twoNotes_mono: "convertToMono twoNotes = impulses 6145 [1000, 1100, 5000, 5050]"
  by (simp add: convertToMono_def twoNotes_def numberOfChannels_def)

lemma twoNotes_pitches:
  "pitchesFrom 0 (segmentAudio (convertToMono twoNotes)) =
     [\<lparr>frequency = 441, pitchNote = frequencyToNote 441, startTime = 0, endTime = 4096 / 44100\<rparr>,
      \<lparr>frequency = 882, pitchNote = frequencyToNote 882, startTime = 2048 / 44100,
        endTime = 6144 / 44100\<rparr>]"
  by (simp add: twoNotes_mono segments_6145 twoNotes_segment0 twoNotes_segment1 Let_def
      minFrequency_def maxFrequency_def)
     (simp add: segmentDuration_def bufferSize_def sampleRate_def)

lemma twoNotes_detectPitches:
  "detectPitches (segmentAudio (convertToMono twoNotes)) =
     [\<lparr>frequency = 441, pitchNote = frequencyToNote 441, startTime = 0, endTime = 4096 / 44100\<rparr>,
      \<lparr>frequency = 882, pitchNote = frequencyToNote 882, startTime = 2048 / 44100,
        endTime = 6144 / 44100\<rparr>]"
  unfolding detectPitches_def twoNotes_pitches by (simp add: note_441 note_882)

text \<open>Claim C3 as the specification states it fails: the two segments of \<open>twoNotes\<close> give
  441 Hz and 882 Hz, notes of different octaves that are not merged, and the second note
  starts at 2048/44100 s, before the first one ends at 4096/44100 s.\<close>

theorem simpleNotes_overlap:
  "(case analyzeAudio twoNotes of
      Inr r \<Rightarrow>
        map (\<lambda>s. (simpleStart s, simpleStart s + simpleDuration s)) (simpleNotes r)
          = [(0, 4096 / 44100), (2048 / 44100, 6144 / 44100)] \<and>
        \<not> nonOverlapping
            (map (\<lambda>s. (simpleStart s, simpleStart s + simpleDuration s)) (simpleNotes r))
    | Inl e \<Rightarrow> False)"
  by (simp add: analyzeAudio_def twoNotes_detectPitches convertToMusicalNotation_def Let_def
      generateSimpleNotes_def nonOverlapping_def)

section \<open>Chord windows\<close>

text \<open>The window key grows with the start time, and it is not negative for a time that
  is not negative.\<close>

lemma timeKey_eq:
  "timeKey t = max (- (2 ^ 1024)) (min (2 ^ 1024) \<lfloor>rounded 53 (- 1022) (t / timeWindow)\<rfloor>)"
proof -
  define r where "r = rounded 53 (- 1022) (t / timeWindow)"
  define M :: int where "M = 2 ^ 1024"
  have p: "(2::real) powr of_int (1023 + 1) = of_int M"
    using pow2_nat[of 1024] by (simp add: M_def)
  have M: "0 < M" by (simp add: M_def)
  have key: "timeKey t = (if of_int M \<le> \<bar>r\<bar> then (if 0 < r then M else - M) else \<lfloor>r\<rfloor>)"
    unfolding timeKey_def toDouble_def toFormat_def Let_def p r_def[symmetric] M_def[symmetric]
    by simp
  consider (hi) "of_int M \<le> r" | (lo) "r \<le> - of_int M"
    | (mid) "- of_int M < r" "r < of_int M" by linarith
  then have "timeKey t = max (- M) (min M \<lfloor>r\<rfloor>)"
  proof cases
    case hi
    then have "M \<le> \<lfloor>r\<rfloor>" by (simp only: le_floor_iff)
    moreover have "0 < r" "of_int M \<le> \<bar>r\<bar>" using hi M by linarith+
    ultimately show ?thesis unfolding key using M by simp
  next
    case lo
    then have "r \<le> of_int (- M)" by simp
    then have "\<lfloor>r\<rfloor> \<le> - M" using floor_mono[of r "of_int (- M)"] by simp
    moreover have "\<not> 0 < r" "of_int M \<le> \<bar>r\<bar>" using lo M by linarith+
    ultimately show ?thesis unfolding key using M by simp
  next
    case mid
    have "of_int (- M) \<le> r" using mid(1) by simp
    then have "- M \<le> \<lfloor>r\<rfloor>" by (simp only: le_floor_iff)
    moreover have "\<lfloor>r\<rfloor> \<le> r" by simp
    then have "\<lfloor>r\<rfloor> < M" using mid(2) by linarith
    moreover have "\<not> of_int M \<le> \<bar>r\<bar>" using mid by linarith
    ultimately show ?thesis unfolding key by simp
  qed
  then show ?thesis unfolding r_def M_def .
qed

lemma timeWindow_pos: "0 < timeWindow"
  by (simp add: timeWindow_def)

lemma timeKey_mono:
  assumes "t \<le> u"
  shows "timeKey t \<le> timeKey u"
proof -
  have "t / timeWindow \<le> u / timeWindow"
    using assms timeWindow_pos by (intro divide_right_mono) simp_all
  then have "rounded 53 (- 1022) (t / timeWindow) \<le> rounded 53 (- 1022) (u / timeWindow)"
    by (rule rounded_mono) simp
  then have "\<lfloor>rounded 53 (- 1022) (t / timeWindow)\<rfloor> \<le> \<lfloor>rounded 53 (- 1022) (u / timeWindow)\<rfloor>"
    by (rule floor_mono)
  then show ?thesis unfolding timeKey_eq by (intro max.mono min.mono) simp_all
qed

lemma timeKey_nonneg:
  assumes "0 \<le> t"
  shows "0 \<le> timeKey t"
proof -
  have "0 \<le> t / timeWindow" using assms timeWindow_pos by simp
  then have "rounded 53 (- 1022) 0 \<le> rounded 53 (- 1022) (t / timeWindow)"
    by (rule rounded_mono) simp
  then have "0 \<le> \<lfloor>rounded 53 (- 1022) (t / timeWindow)\<rfloor>" by simp
  then show ?thesis unfolding timeKey_eq by simp
qed

lemma timeKey_between:
  assumes "of_int k \<le> t / timeWindow" "t / timeWindow \<le> of_int (16 * k + 15) / 16"
    and "\<bar>k\<bar> < 2 ^ 48"
  shows "timeKey t = k"
proof -
  have "finiteIn (of_int k) (of_int (16 * k + 15) / 16) (toDouble (t / timeWindow))"
    using assms by (intro toDouble_fence[where a = k and m = 0 and b = "16 * k + 15" and n = 4]) simp_all
  then obtain r where r: "toDouble (t / timeWindow) = Num r" "of_int k \<le> r" "r \<le> of_int (16 * k + 15) / 16"
    by (rule finiteInE)
  have "r < of_int k + 1" using r(3) by (simp add: field_simps)
  then have "\<lfloor>r\<rfloor> = k" using r(2) by (intro floor_unique) simp_all
  then show ?thesis by (simp add: timeKey_def r(1))
qed

text \<open>The key is the floor of the rounded quotient, not of the exact one: the double
  nearest to 3.4 divided by the double nearest to 0.2 is a little less than 17, and
  rounds to 17.\<close>

lemma timeKey_rounded_quotient:
  "\<lfloor>(7656119366529843 / 2 ^ 51) / timeWindow\<rfloor> = 16"
  "timeKey (7656119366529843 / 2 ^ 51) = 17"
proof -
  have q: "(7656119366529843 / 2 ^ 51) / timeWindow = 61248954932238744 / 3602879701896397"
    by (simp add: timeWindow_def)
  show "\<lfloor>(7656119366529843 / 2 ^ 51) / timeWindow\<rfloor> = 16" unfolding q by simp
  have l: "\<lfloor>log 2 (61248954932238744 / 3602879701896397 :: real)\<rfloor> = 4"
    by (rule floor_log_binade) (simp_all add: powr_numeral)
  have p: "(2::real) powr -48 = 1 / 2 ^ 48" by (simp add: powr_neg_numeral)
  have "rounded 53 (-1022) (61248954932238744 / 3602879701896397) = 17"
    unfolding rounded_def Let_def using l
    by (simp add: p) (simp add: nearestEven_def Let_def)
  then have "toDouble (61248954932238744 / 3602879701896397) = Num 17"
    by (simp add: toDouble_def toFormat_def Let_def powr_numeral)
  then show "timeKey (7656119366529843 / 2 ^ 51) = 17" unfolding timeKey_def q by simp
qed

lemma windowKey_mono: "startTime a \<le> startTime b \<Longrightarrow> windowKey a \<le> windowKey b"
  unfolding windowKey_def by (rule timeKey_mono)

lemma windowKey_nonneg: "0 \<le> startTime a \<Longrightarrow> 0 \<le> windowKey a"
  unfolding windowKey_def by (rule timeKey_nonneg)

text \<open>The object \<open>timeWindows\<close> of any recording: its keys are distinct, they are the
  window keys of the notes, and the array of a key holds the notes of that window in
  their order.\<close>

lemma keys_addToWindow:
  "map fst (addToWindow k p tw) = (if k \<in> set (map fst tw) then map fst tw else map fst tw @ [k])"
proof (induction tw)
  case Nil
  show ?case by simp
next
  case (Cons kg tw)
  obtain k' g where kg: "kg = (k', g)" by (cases kg)
  show ?case
  proof (cases "k' = k")
    case True
    then show ?thesis by (simp add: kg)
  next
    case False
    then show ?thesis using Cons.IH by (simp add: kg)
  qed
qed

lemma map_of_addToWindow:
  "map_of (addToWindow k p tw) k' =
     (if k' = k then Some (case map_of tw k of None \<Rightarrow> [p] | Some g \<Rightarrow> g @ [p])
      else map_of tw k')"
proof (induction tw)
  case Nil
  show ?case by simp
next
  case (Cons kg tw)
  obtain k0 g where kg: "kg = (k0, g)" by (cases kg)
  show ?case
  proof (cases "k0 = k")
    case True
    then show ?thesis by (simp add: kg)
  next
    case False
    then show ?thesis using Cons.IH by (cases "k' = k") (simp_all add: kg)
  qed
qed

lemma groupByWindow_snoc:
  "groupByWindow (ps @ [p]) = addToWindow (windowKey p) p (groupByWindow ps)"
  by (simp add: groupByWindow_def windowKey_def)

lemma keys_groupByWindow:
  "distinct (map fst (groupByWindow ps)) \<and> set (map fst (groupByWindow ps)) = windowKey ` set ps"
proof (induction ps rule: rev_induct)
  case Nil
  show ?case by (simp add: groupByWindow_def)
next
  case (snoc p ps)
  then show ?case unfolding groupByWindow_snoc keys_addToWindow by auto
qed

lemma map_of_groupByWindow:
  "map_of (groupByWindow ps) k =
     (if windowNotes k ps = [] then None else Some (windowNotes k ps))"
proof (induction ps arbitrary: k rule: rev_induct)
  case Nil
  show ?case by (simp add: groupByWindow_def windowNotes_def)
next
  case (snoc p ps)
  show ?case
    unfolding groupByWindow_snoc map_of_addToWindow snoc.IH
    by (simp add: windowNotes_def)
qed

lemma objectKeys_set: "set (objectKeys tw) = set (map fst tw)"
  by (auto simp: objectKeys_def Let_def)

lemma objectKeys_distinct: "distinct (map fst tw) \<Longrightarrow> distinct (objectKeys tw)"
  by (auto simp: objectKeys_def Let_def)

lemma detectChords_windows:
  "detectChords ps =
     concat (map (\<lambda>k. chordOfWindow (windowNotes k ps)) (objectKeys (groupByWindow ps)))"
proof -
  have "(case map_of (groupByWindow ps) k of Some notes \<Rightarrow> chordOfWindow notes | None \<Rightarrow> [])
      = chordOfWindow (windowNotes k ps)" for k
    by (simp add: map_of_groupByWindow chordOfWindow_def)
  then show ?thesis by (simp add: detectChords_def Let_def)
qed

lemma chordOfWindow_times:
  assumes "c \<in> set (chordOfWindow g)"
  shows "chordStart c = Min (set (map startTime g)) \<and> chordEnd c = Max (set (map endTime g)) \<and>
         2 \<le> length g"
  using assms by (auto simp: chordOfWindow_def Let_def split: if_splits option.splits)

lemma chordOfWindow_key:
  assumes "c \<in> set (chordOfWindow g)" "\<forall>x \<in> set g. windowKey x = k"
  shows "chordKey c = k"
proof -
  from chordOfWindow_times[OF assms(1)] have
    st: "chordStart c = Min (set (map startTime g))" and len: "2 \<le> length g" by simp_all
  have ne: "set (map startTime g) \<noteq> {}" using len by auto
  have "Min (set (map startTime g)) \<in> set (map startTime g)"
    using ne by (intro Min_in) simp_all
  then obtain x where x: "x \<in> set g" "chordStart c = startTime x" using st by auto
  have "chordKey c = windowKey x" using x(2) by (simp add: chordKey_def windowKey_def)
  then show ?thesis using assms(2) x(1) by simp
qed

lemma filter_concat_keys:
  assumes "distinct ks" "\<And>k' c. k' \<in> set ks \<Longrightarrow> c \<in> set (F k') \<Longrightarrow> key c = k'"
  shows "filter (\<lambda>c. key c = k) (concat (map F ks)) = (if k \<in> set ks then F k else [])"
  using assms
proof (induction ks)
  case Nil
  show ?case by simp
next
  case (Cons a ks)
  have ih: "filter (\<lambda>c. key c = k) (concat (map F ks)) = (if k \<in> set ks then F k else [])"
    using Cons.prems by (intro Cons.IH) simp_all
  have here: "filter (\<lambda>c. key c = k) (F a) = (if a = k then F a else [])"
  proof (cases "a = k")
    case True
    then have "\<forall>c \<in> set (F a). key c = k" using Cons.prems(2)[of a] by simp
    then show ?thesis using True by (simp add: filter_id_conv)
  next
    case False
    then have "\<forall>c \<in> set (F a). key c \<noteq> k" using Cons.prems(2)[of a] by auto
    then show ?thesis using False by (simp add: filter_empty_conv)
  qed
  show ?case using Cons.prems(1) by (auto simp: ih here)
qed

lemma chords_of_window:
  "filter (\<lambda>c. chordKey c = k) (detectChords ps) = chordOfWindow (windowNotes k ps)"
proof -
  let ?ks = "objectKeys (groupByWindow ps)"
  have d: "distinct ?ks" using keys_groupByWindow[of ps] by (intro objectKeys_distinct) simp
  have key: "chordKey c = k'" if "c \<in> set (chordOfWindow (windowNotes k' ps))" for k' c
    using that by (rule chordOfWindow_key) (simp add: windowNotes_def)
  have "filter (\<lambda>c. chordKey c = k) (detectChords ps)
      = (if k \<in> set ?ks then chordOfWindow (windowNotes k ps) else [])"
    unfolding detectChords_windows using d key by (rule filter_concat_keys)
  moreover have "chordOfWindow (windowNotes k ps) = []" if "k \<notin> set ?ks"
  proof -
    have "k \<notin> windowKey ` set ps" using that keys_groupByWindow[of ps] by (simp add: objectKeys_set)
    then have "windowNotes k ps = []" by (auto simp: windowNotes_def filter_empty_conv)
    then show ?thesis by (simp add: chordOfWindow_def)
  qed
  ultimately show ?thesis by auto
qed

lemma identify_CEGBb: "identifyChord [''C'', ''E'', ''G'', ''A#''] = Some (''C'', ''Major'')"
  by (simp add: identifyChord_def calculateInterval_def jsrem_def chordDefinitions_def
      intervalsMatchChord_def Let_def)

lemma length_uniqueInOrder_le: "length (uniqueInOrder xs) \<le> length xs"
proof (induction xs rule: uniqueInOrder.induct)
  case 1 show ?case by simp
next
  case (2 x xs)
  have "length (filter (\<lambda>y. y \<noteq> x) xs) \<le> length xs" by simp
  with 2 have "length (uniqueInOrder (filter (\<lambda>y. y \<noteq> x) xs)) \<le> length xs"
    by (rule le_trans)
  then show ?case by simp
qed

text \<open>Claim C2, as the source has it. In any recording, when the notes that fall into
  one chord window (the window with the key \<open>k\<close>) have the distinct pitch classes C, E, G,
  A#, in the order of their first occurrence, the chords of the result that start in that
  window are one chord: root C, type Major, with the four pitch classes as its notes,
  from the earliest start to the latest end of the notes of the window. The roots
  are tried in the order of the notes and the table of chord types is searched in its own
  order, where Major, whose three tones are all present, stands before Dominant 7; the
  first match wins.\<close>

theorem detectChords_C_E_G_Bb:
  assumes "uniqueInOrder (map noteNameOf (windowNotes k ps)) = [''C'', ''E'', ''G'', ''A#'']"
  shows "map (\<lambda>c. (root c, chordType c, chordNotes c, chordStart c, chordEnd c))
           (filter (\<lambda>c. chordKey c = k) (detectChords ps)) =
     [(''C'', ''Major'', [''C'', ''E'', ''G'', ''A#''],
       Min (set (map startTime (windowNotes k ps))),
       Max (set (map endTime (windowNotes k ps))))]"
proof -
  let ?g = "windowNotes k ps"
  have names: "uniqueInOrder (map (\<lambda>n. name (pitchNote n)) ?g) = [''C'', ''E'', ''G'', ''A#'']"
    using assms by (simp add: noteNameOf_def[abs_def])
  have "length (uniqueInOrder (map (\<lambda>n. name (pitchNote n)) ?g)) \<le> length ?g"
    using length_uniqueInOrder_le[of "map (\<lambda>n. name (pitchNote n)) ?g"] by simp
  then have len: "4 \<le> length ?g" by (simp add: names)
  show ?thesis
    unfolding chords_of_window using len
    by (simp add: chordOfWindow_def names identify_CEGBb Let_def)
qed

lemma windowNote_key:
  assumes "of_int k \<le> start / timeWindow" "start / timeWindow \<le> of_int (16 * k + 15) / 16"
    and "\<bar>k\<bar> < 2 ^ 48"
  shows "windowKey (windowNote nm f start) = k"
  unfolding windowKey_def using timeKey_between[OF assms] by (simp add: windowNote_def)

lemma dominant7Recording_keys:
  "map windowKey dominant7Recording = [0, 0, 1, 1, 1, 1, 2, 2, 2]"
proof -
  have "windowKey (windowNote nm f (1 / 16)) = 0" "windowKey (windowNote nm f (1 / 8)) = 0"
    "windowKey (windowNote nm f (1 / 4)) = 1" "windowKey (windowNote nm f (5 / 16)) = 1"
    "windowKey (windowNote nm f (11 / 32)) = 1" "windowKey (windowNote nm f (3 / 8)) = 1"
    "windowKey (windowNote nm f (7 / 16)) = 2" "windowKey (windowNote nm f (1 / 2)) = 2"
    "windowKey (windowNote nm f (9 / 16)) = 2" for nm f
    by (rule windowNote_key; simp add: timeWindow_def)+
  then show ?thesis by (simp add: dominant7Recording_def)
qed

text \<open>In \<open>dominant7Recording\<close> the times are binary fractions, so that every operation on
  them is exact in double precision as well. The notes of the second window, which start
  at 0.25 s, 0.3125 s, 0.34375 s and 0.375 s, are C, E, G and A#: the chord of that
  window is C Major, from 0.25 s to 0.5 s. The first window, with two pitch classes, has
  no chord, and the third has E Minor: these two chords are the result.\<close>

theorem detectChords_C_E_G_Bb_witness:
  "map noteNameOf (windowNotes 1 dominant7Recording) = [''C'', ''E'', ''G'', ''A#''] \<and>
   map (\<lambda>c. (root c, chordType c, chordNotes c, chordStart c, chordEnd c))
     (filter (\<lambda>c. chordKey c = 1) (detectChords dominant7Recording)) =
     [(''C'', ''Major'', [''C'', ''E'', ''G'', ''A#''], 1 / 4, 1 / 2)] \<and>
   detectChords dominant7Recording =
     [\<lparr>root = ''C'', chordType = ''Major'', chordNotes = [''C'', ''E'', ''G'', ''A#''],
       chordStart = 1 / 4, chordEnd = 1 / 2, chordDuration = 1 / 4\<rparr>,
      \<lparr>root = ''E'', chordType = ''Minor'', chordNotes = [''E'', ''G'', ''B''],
       chordStart = 7 / 16, chordEnd = 11 / 16, chordDuration = 1 / 4\<rparr>]"
proof -
  have w1: "windowNotes 1 dominant7Recording =
     [windowNote ''C'' 261.63 (1 / 4), windowNote ''E'' 329.63 (5 / 16),
      windowNote ''G'' 392 (11 / 32), windowNote ''A#'' 466.16 (3 / 8)]"
    using dominant7Recording_keys by (simp add: windowNotes_def dominant7Recording_def)
  have n1: "map noteNameOf (windowNotes 1 dominant7Recording) = [''C'', ''E'', ''G'', ''A#'']"
    unfolding w1 by (simp add: noteNameOf_def windowNote_def)
  have u1: "uniqueInOrder (map noteNameOf (windowNotes 1 dominant7Recording))
      = [''C'', ''E'', ''G'', ''A#'']"
    unfolding n1 by simp
  have c1: "map (\<lambda>c. (root c, chordType c, chordNotes c, chordStart c, chordEnd c))
     (filter (\<lambda>c. chordKey c = 1) (detectChords dominant7Recording)) =
     [(''C'', ''Major'', [''C'', ''E'', ''G'', ''A#''], 1 / 4, 1 / 2)]"
    unfolding detectChords_C_E_G_Bb[OF u1] w1 by (simp add: windowNote_def)
  have g: "groupByWindow dominant7Recording =
     [(0, [windowNote ''D'' 293.66 (1 / 16), windowNote ''F'' 349.23 (1 / 8)]),
      (1, [windowNote ''C'' 261.63 (1 / 4), windowNote ''E'' 329.63 (5 / 16),
           windowNote ''G'' 392 (11 / 32), windowNote ''A#'' 466.16 (3 / 8)]),
      (2, [windowNote ''E'' 329.63 (7 / 16), windowNote ''G'' 392 (1 / 2),
           windowNote ''B'' 493.88 (9 / 16)])]"
    using dominant7Recording_keys
    by (simp add: groupByWindow_def dominant7Recording_def windowKey_def)
  have "detectChords dominant7Recording =
     [\<lparr>root = ''C'', chordType = ''Major'', chordNotes = [''C'', ''E'', ''G'', ''A#''],
       chordStart = 1 / 4, chordEnd = 1 / 2, chordDuration = 1 / 4\<rparr>,
      \<lparr>root = ''E'', chordType = ''Minor'', chordNotes = [''E'', ''G'', ''B''],
       chordStart = 7 / 16, chordEnd = 11 / 16, chordDuration = 1 / 4\<rparr>]"
    unfolding detectChords_def g Let_def
    by (simp add: objectKeys_def isArrayIndex_def chordOfWindow_def windowNote_def
        identifyChord_def calculateInterval_def jsrem_def chordDefinitions_def
        intervalsMatchChord_def Let_def)
  with n1 c1 show ?thesis by simp
qed

text \<open>Claim C2 as the specification states it fails: for the pitch classes C, E, G, A# the
  source does not answer Dominant 7.\<close>

theorem identifyChord_C_E_G_Bb_not_dominant7:
  "identifyChord [''C'', ''E'', ''G'', ''A#''] \<noteq> Some (''C'', ''Dominant 7'')"
  by (simp add: identifyChord_def calculateInterval_def jsrem_def chordDefinitions_def
      intervalsMatchChord_def Let_def)

section \<open>Times of notes and chords\<close>

lemma segmentDuration_pos: "0 < segmentDuration"
  by (simp add: segmentDuration_def bufferSize_def sampleRate_def)

lemma pitchesFrom_times:
  "p \<in> set (pitchesFrom i segs) \<Longrightarrow>
     real i * segmentDuration * 0.5 \<le> startTime p \<and> endTime p = startTime p + segmentDuration"
proof (induction segs arbitrary: i)
  case Nil
  then show ?case by simp
next
  case (Cons s rest)
  from Cons.prems consider
    (head) "p = \<lparr>frequency = detectPitchAutocorrelation s,
                  pitchNote = frequencyToNote (detectPitchAutocorrelation s),
                  startTime = real i * segmentDuration * 0.5,
                  endTime = real i * segmentDuration * 0.5 + segmentDuration\<rparr>"
  | (tail) "p \<in> set (pitchesFrom (i + 1) rest)"
    by (auto simp: Let_def split: if_splits)
  then show ?case
  proof cases
    case head
    then show ?thesis by simp
  next
    case tail
    have "real i * segmentDuration * 0.5 \<le> real (i + 1) * segmentDuration * 0.5"
      using segmentDuration_pos by simp
    with Cons.IH[OF tail] show ?thesis by linarith
  qed
qed

lemma pitchesFrom_sorted:
  "sorted_wrt (<) (map startTime (pitchesFrom i segs))"
proof (induction segs arbitrary: i)
  case Nil
  show ?case by simp
next
  case (Cons s rest)
  have later: "real i * segmentDuration * 0.5 < startTime y"
    if "y \<in> set (pitchesFrom (i + 1) rest)" for y
  proof -
    have "real i * segmentDuration * 0.5 < real (i + 1) * segmentDuration * 0.5"
      using segmentDuration_pos by simp
    with pitchesFrom_times[OF that] show ?thesis by linarith
  qed
  show ?case using Cons.IH[of "i + 1"] later
    by (auto simp: Let_def sorted_wrt_append)
qed

lemma pitchesFrom_nonneg: "p \<in> set (pitchesFrom i segs) \<Longrightarrow> 0 \<le> startTime p"
proof -
  assume "p \<in> set (pitchesFrom i segs)"
  from pitchesFrom_times[OF this] have "real i * segmentDuration * 0.5 \<le> startTime p" by simp
  moreover have "0 \<le> real i * segmentDuration * 0.5" using segmentDuration_pos by simp
  ultimately show ?thesis by linarith
qed

lemma pitchesFrom_start_le_end: "p \<in> set (pitchesFrom i segs) \<Longrightarrow> startTime p \<le> endTime p"
  using pitchesFrom_times[of p i segs] segmentDuration_pos by simp

lemma consolidateFrom_Cons:
  "consolidateFrom c (n # ns) =
     (if mergeable c n then consolidateFrom (c\<lparr>endTime := endTime n\<rparr>) ns
      else c # consolidateFrom n ns)"
  by (simp add: mergeable_def)

lemma consolidateFrom_sorted:
  "sorted_wrt (<) (map startTime (c # ns)) \<Longrightarrow>
     sorted_wrt (<) (map startTime (consolidateFrom c ns)) \<and>
     (\<forall>y \<in> set (consolidateFrom c ns). startTime c \<le> startTime y)"
proof (induction ns arbitrary: c)
  case Nil
  show ?case by simp
next
  case (Cons n ns)
  show ?case
  proof (cases "mergeable c n")
    case True
    have "sorted_wrt (<) (map startTime (c\<lparr>endTime := endTime n\<rparr> # ns))"
      using Cons.prems by auto
    from Cons.IH[OF this] show ?thesis using True
      by (simp add: consolidateFrom_Cons del: consolidateFrom.simps)
  next
    case False
    have s: "sorted_wrt (<) (map startTime (n # ns))" using Cons.prems by simp
    have cn: "startTime c < startTime n" using Cons.prems by simp
    from Cons.IH[OF s] cn have "sorted_wrt (<) (map startTime (c # consolidateFrom n ns))"
      and "\<forall>y \<in> set (c # consolidateFrom n ns). startTime c \<le> startTime y"
      by auto
    then show ?thesis using False
      by (simp add: consolidateFrom_Cons del: consolidateFrom.simps)
  qed
qed

lemma consolidateFrom_start_le_end:
  "sorted_wrt (<) (map startTime (c # ns)) \<Longrightarrow>
   \<forall>x \<in> set (c # ns). startTime x \<le> endTime x \<Longrightarrow>
   \<forall>y \<in> set (consolidateFrom c ns). startTime y \<le> endTime y"
proof (induction ns arbitrary: c)
  case Nil
  then show ?case by simp
next
  case (Cons n ns)
  show ?case
  proof (cases "mergeable c n")
    case True
    have 1: "sorted_wrt (<) (map startTime (c\<lparr>endTime := endTime n\<rparr> # ns))"
      using Cons.prems(1) by auto
    have "startTime c < startTime n" "startTime n \<le> endTime n" using Cons.prems by simp_all
    then have 2: "\<forall>x \<in> set (c\<lparr>endTime := endTime n\<rparr> # ns). startTime x \<le> endTime x"
      using Cons.prems(2) by simp
    from Cons.IH[OF 1 2] show ?thesis using True
      by (simp add: consolidateFrom_Cons del: consolidateFrom.simps)
  next
    case False
    have 1: "sorted_wrt (<) (map startTime (n # ns))" using Cons.prems(1) by simp
    have 2: "\<forall>x \<in> set (n # ns). startTime x \<le> endTime x" using Cons.prems(2) by simp
    from Cons.IH[OF 1 2] show ?thesis using False Cons.prems(2)
      by (simp add: consolidateFrom_Cons del: consolidateFrom.simps)
  qed
qed

lemma consolidateFrom_source:
  "y \<in> set (consolidateFrom c ns) \<Longrightarrow> \<exists>x \<in> set (c # ns). y = x\<lparr>endTime := endTime y\<rparr>"
proof (induction ns arbitrary: c)
  case Nil
  then have "y = c" by simp
  then have "c = c\<lparr>endTime := endTime c\<rparr> \<and> y = c" by simp
  then show ?case by (metis list.set_intros(1))
next
  case (Cons n ns)
  show ?case
  proof (cases "mergeable c n")
    case True
    then have "y \<in> set (consolidateFrom (c\<lparr>endTime := endTime n\<rparr>) ns)"
      using Cons.prems by (simp add: consolidateFrom_Cons del: consolidateFrom.simps)
    from Cons.IH[OF this] obtain x where
      x: "x \<in> set (c\<lparr>endTime := endTime n\<rparr> # ns)" "y = x\<lparr>endTime := endTime y\<rparr>" by blast
    show ?thesis
    proof (cases "x = c\<lparr>endTime := endTime n\<rparr>")
      case True
      have "x\<lparr>endTime := endTime y\<rparr> = c\<lparr>endTime := endTime y\<rparr>" unfolding True by simp
      with x(2) have "y = c\<lparr>endTime := endTime y\<rparr>" by (rule trans)
      then show ?thesis by (metis list.set_intros(1))
    next
      case False
      then have "x \<in> set (c # n # ns)" using x(1) by simp
      with x(2) show ?thesis by blast
    qed
  next
    case False
    then have "y = c \<or> y \<in> set (consolidateFrom n ns)"
      using Cons.prems by (simp add: consolidateFrom_Cons del: consolidateFrom.simps)
    then show ?thesis
    proof
      assume "y = c"
      then have "c = c\<lparr>endTime := endTime c\<rparr> \<and> y = c" by simp
      then show ?thesis by (metis list.set_intros(1))
    next
      assume "y \<in> set (consolidateFrom n ns)"
      from Cons.IH[OF this] obtain x where "x \<in> set (n # ns)" "y = x\<lparr>endTime := endTime y\<rparr>"
        by blast
      then have "x \<in> set (c # n # ns)" by simp
      with \<open>y = x\<lparr>endTime := endTime y\<rparr>\<close> show ?thesis by blast
    qed
  qed
qed

lemma length_consolidateFrom: "length (consolidateFrom c ns) \<le> Suc (length ns)"
proof (induction ns arbitrary: c)
  case Nil show ?case by simp
next
  case (Cons n ns)
  show ?case using Cons.IH[of "c\<lparr>endTime := endTime n\<rparr>"] Cons.IH[of n]
    by (auto simp: le_SucI)
qed

lemma length_consolidateNotes: "length (consolidateNotes xs) \<le> length xs"
  by (cases xs) (simp_all add: length_consolidateFrom)

lemma consolidateNotes_source:
  "y \<in> set (consolidateNotes xs) \<Longrightarrow> \<exists>x \<in> set xs. y = x\<lparr>endTime := endTime y\<rparr>"
proof (cases xs)
  case Nil
  assume "y \<in> set (consolidateNotes xs)"
  then show ?thesis using Nil by simp
next
  case (Cons c ns)
  assume "y \<in> set (consolidateNotes xs)"
  then have "y \<in> set (consolidateFrom c ns)" using Cons by simp
  from consolidateFrom_source[OF this] show ?thesis unfolding Cons .
qed

lemma consolidateNotes_sorted:
  assumes "sorted_wrt (<) (map startTime xs)"
  shows "sorted_wrt (<) (map startTime (consolidateNotes xs))"
proof (cases xs)
  case Nil
  then show ?thesis by simp
next
  case (Cons c ns)
  have "sorted_wrt (<) (map startTime (consolidateFrom c ns))"
    using consolidateFrom_sorted[of c ns] assms unfolding Cons by blast
  then show ?thesis by (simp add: Cons)
qed

lemma consolidateNotes_start_le_end:
  assumes "sorted_wrt (<) (map startTime xs)" "\<forall>x \<in> set xs. startTime x \<le> endTime x"
  shows "\<forall>y \<in> set (consolidateNotes xs). startTime y \<le> endTime y"
proof (cases xs)
  case Nil
  then show ?thesis by simp
next
  case (Cons c ns)
  have "\<forall>y \<in> set (consolidateFrom c ns). startTime y \<le> endTime y"
    using consolidateFrom_start_le_end[of c ns] assms unfolding Cons by blast
  then show ?thesis by (simp add: Cons)
qed

lemma consolidateNotes_nonneg:
  assumes "sorted_wrt (<) (map startTime xs)" "\<forall>x \<in> set xs. 0 \<le> startTime x"
  shows "\<forall>y \<in> set (consolidateNotes xs). 0 \<le> startTime y"
proof (cases xs)
  case Nil
  then show ?thesis by simp
next
  case (Cons c ns)
  have "\<forall>y \<in> set (consolidateFrom c ns). startTime c \<le> startTime y"
    using consolidateFrom_sorted[of c ns] assms(1) unfolding Cons by blast
  moreover have "0 \<le> startTime c" using assms(2) by (simp add: Cons)
  ultimately have "\<forall>y \<in> set (consolidateFrom c ns). 0 \<le> startTime y"
    by (meson order_trans)
  then show ?thesis by (simp add: Cons)
qed

lemma groupsOK_Cons:
  "groupsOK ((k, g) # tw) \<longleftrightarrow>
     (g \<noteq> [] \<and> (\<forall>x \<in> set g. windowKey x = k \<and> 0 \<le> startTime x \<and> startTime x \<le> endTime x))
     \<and> groupsOK tw"
  by (simp add: groupsOK_def)

lemma groupsOK_addToWindow:
  assumes "windowKey p = k" "0 \<le> startTime p" "startTime p \<le> endTime p"
  shows "groupsOK tw \<Longrightarrow> groupsOK (addToWindow k p tw)"
proof (induction tw)
  case Nil
  show ?case using assms by (simp add: groupsOK_def)
next
  case (Cons kg tw)
  obtain k' g where kg: "kg = (k', g)" by (cases kg)
  show ?case
  proof (cases "k' = k")
    case True
    then show ?thesis using Cons.prems assms by (simp add: kg groupsOK_Cons)
  next
    case False
    then show ?thesis using Cons by (simp add: kg groupsOK_Cons)
  qed
qed

lemma groupByWindow_invariant:
  assumes "sorted_wrt (<) (map startTime ps)"
    and "\<forall>x \<in> set ps. 0 \<le> startTime x \<and> startTime x \<le> endTime x"
  shows "sorted_wrt (<) (map fst (groupByWindow ps)) \<and> groupsOK (groupByWindow ps) \<and>
         (\<forall>k \<in> set (map fst (groupByWindow ps)). \<exists>x \<in> set ps. k = windowKey x)"
  using assms
proof (induction ps rule: rev_induct)
  case Nil
  show ?case by (simp add: groupByWindow_def groupsOK_def)
next
  case (snoc p ps)
  let ?tw = "groupByWindow ps"
  let ?k = "windowKey p"
  have sorted_ps: "sorted_wrt (<) (map startTime ps)"
    and before: "\<forall>x \<in> set ps. startTime x < startTime p"
    using snoc.prems(1) by (simp_all add: sorted_wrt_append)
  have ok_ps: "\<forall>x \<in> set ps. 0 \<le> startTime x \<and> startTime x \<le> endTime x"
    and ok_p: "0 \<le> startTime p" "startTime p \<le> endTime p"
    using snoc.prems(2) by simp_all
  from snoc.IH[OF sorted_ps ok_ps] have
    ih1: "sorted_wrt (<) (map fst ?tw)" and ih2: "groupsOK ?tw"
    and ih3: "\<forall>k \<in> set (map fst ?tw). \<exists>x \<in> set ps. k = windowKey x"
    by blast+
  have le: "\<forall>k \<in> set (map fst ?tw). k \<le> ?k"
  proof
    fix k assume "k \<in> set (map fst ?tw)"
    then obtain x where "x \<in> set ps" "k = windowKey x" using ih3 by blast
    then show "k \<le> ?k" using before windowKey_mono[of x p] by force
  qed
  have keys: "map fst (groupByWindow (ps @ [p])) =
      (if ?k \<in> set (map fst ?tw) then map fst ?tw else map fst ?tw @ [?k])"
    by (simp only: groupByWindow_snoc keys_addToWindow)
  have 1: "sorted_wrt (<) (map fst (groupByWindow (ps @ [p])))"
  proof (cases "?k \<in> set (map fst ?tw)")
    case True
    then show ?thesis using keys ih1 by simp
  next
    case False
    then have "\<forall>k \<in> set (map fst ?tw). k < ?k" using le by force
    then show ?thesis using keys False ih1 by (simp add: sorted_wrt_append)
  qed
  have 2: "groupsOK (groupByWindow (ps @ [p]))"
    unfolding groupByWindow_snoc using ok_p ih2 by (intro groupsOK_addToWindow) simp_all
  have 3: "\<forall>k \<in> set (map fst (groupByWindow (ps @ [p]))). \<exists>x \<in> set (ps @ [p]). k = windowKey x"
  proof
    fix k assume "k \<in> set (map fst (groupByWindow (ps @ [p])))"
    then have "k \<in> set (map fst ?tw) \<or> k = ?k" using keys by (auto split: if_splits)
    then show "\<exists>x \<in> set (ps @ [p]). k = windowKey x" using ih3 by auto
  qed
  from 1 2 3 show ?case by blast
qed

lemma index_keys_first:
  "sorted ks \<Longrightarrow> \<forall>k \<in> set ks. 0 \<le> k \<Longrightarrow>
   filter isArrayIndex ks @ filter (\<lambda>k. \<not> isArrayIndex k) ks = ks"
proof (induction ks)
  case Nil
  show ?case by simp
next
  case (Cons k ks)
  show ?case
  proof (cases "isArrayIndex k")
    case True
    then show ?thesis using Cons by simp
  next
    case False
    have "\<not> isArrayIndex y" if "y \<in> set ks" for y
    proof -
      have "k \<le> y" using Cons.prems(1) that by simp
      moreover have "0 \<le> k" using Cons.prems(2) by simp
      ultimately show ?thesis using False by (simp add: isArrayIndex_def)
    qed
    then have "filter isArrayIndex ks = []" "filter (\<lambda>k. \<not> isArrayIndex k) ks = ks"
      by (simp_all add: filter_empty_conv filter_id_conv)
    then show ?thesis using False by simp
  qed
qed

lemma objectKeys_sorted:
  assumes "sorted_wrt (<) (map fst tw)" "\<forall>k \<in> set (map fst tw). 0 \<le> k"
  shows "objectKeys tw = map fst tw"
proof -
  have s: "sorted (map fst tw)" using assms(1) by (rule strict_sorted_imp_sorted)
  then have "sorted (filter isArrayIndex (map fst tw))" by (rule sorted_wrt_filter)
  then have "sort (filter isArrayIndex (map fst tw)) = filter isArrayIndex (map fst tw)"
    by (rule sorted_sort_id)
  then show ?thesis
    using index_keys_first[OF s assms(2)] by (simp add: objectKeys_def Let_def)
qed

lemma detectChords_groups:
  assumes "sorted_wrt (<) (map startTime ps)"
    and "\<forall>x \<in> set ps. 0 \<le> startTime x \<and> startTime x \<le> endTime x"
  shows "detectChords ps = concat (map (\<lambda>kg. chordOfWindow (snd kg)) (groupByWindow ps))"
proof -
  let ?tw = "groupByWindow ps"
  from groupByWindow_invariant[OF assms] have
    s: "sorted_wrt (<) (map fst ?tw)"
    and k: "\<forall>k \<in> set (map fst ?tw). \<exists>x \<in> set ps. k = windowKey x" by blast+
  have nonneg: "\<forall>k \<in> set (map fst ?tw). 0 \<le> k"
  proof
    fix k' assume "k' \<in> set (map fst ?tw)"
    then obtain x where "x \<in> set ps" "k' = windowKey x" using k by blast
    then show "0 \<le> k'" using assms(2) windowKey_nonneg[of x] by simp
  qed
  have d: "distinct (map fst ?tw)" using s by (simp add: strict_sorted_iff)
  have one: "(case map_of ?tw (fst kg) of Some notes \<Rightarrow> chordOfWindow notes | None \<Rightarrow> [])
              = chordOfWindow (snd kg)" if "kg \<in> set ?tw" for kg
  proof -
    obtain k' g where kg: "kg = (k', g)" by (cases kg)
    have "map_of ?tw k' = Some g" using d that unfolding kg by (rule map_of_is_SomeI)
    then show ?thesis by (simp add: kg)
  qed
  have "map (\<lambda>windowKey. case map_of ?tw windowKey of Some notes \<Rightarrow> chordOfWindow notes | None \<Rightarrow> [])
          (map fst ?tw)
        = map (\<lambda>kg. case map_of ?tw (fst kg) of Some notes \<Rightarrow> chordOfWindow notes | None \<Rightarrow> []) ?tw"
    by (simp only: map_map o_def)
  also have "\<dots> = map (\<lambda>kg. chordOfWindow (snd kg)) ?tw"
    by (rule map_cong[OF refl]) (rule one)
  finally have eq: "map (\<lambda>windowKey. case map_of ?tw windowKey of Some notes \<Rightarrow> chordOfWindow notes | None \<Rightarrow> [])
          (map fst ?tw) = map (\<lambda>kg. chordOfWindow (snd kg)) ?tw" .
  show ?thesis
    unfolding detectChords_def Let_def objectKeys_sorted[OF s nonneg] eq by (rule refl)
qed

lemma length_chordOfWindow: "length (chordOfWindow g) \<le> 1"
  by (auto simp: chordOfWindow_def Let_def split: option.splits)

lemma chordOfWindow_in_window:
  assumes "c \<in> set (chordOfWindow g)"
    and "\<forall>x \<in> set g. windowKey x = k \<and> 0 \<le> startTime x \<and> startTime x \<le> endTime x"
  shows "chordKey c = k \<and> chordStart c \<le> chordEnd c"
proof -
  from chordOfWindow_times[OF assms(1)] have
    st: "chordStart c = Min (set (map startTime g))"
    and en: "chordEnd c = Max (set (map endTime g))" and len: "2 \<le> length g" by simp_all
  have ne: "set (map startTime g) \<noteq> {}" using len by auto
  have "Min (set (map startTime g)) \<in> set (map startTime g)"
    using ne by (intro Min_in) simp_all
  then obtain x where x: "x \<in> set g" "chordStart c = startTime x" using st by auto
  have "chordKey c = windowKey x" using x(2) by (simp add: chordKey_def windowKey_def)
  then have key: "chordKey c = k" using assms(2) x(1) by simp
  have "startTime x \<le> endTime x" using assms(2) x(1) by simp
  moreover have "endTime x \<le> chordEnd c" unfolding en using x(1) by (intro Max_ge) simp_all
  ultimately have "chordStart c \<le> chordEnd c" using x(2) by linarith
  with key show ?thesis by simp
qed

lemma chordKey_less: "chordKey a < chordKey b \<Longrightarrow> chordStart a < chordStart b"
proof (rule ccontr)
  assume lt: "chordKey a < chordKey b" and "\<not> chordStart a < chordStart b"
  then have "chordStart b \<le> chordStart a" by simp
  then have "chordKey b \<le> chordKey a" unfolding chordKey_def by (rule timeKey_mono)
  with lt show False by simp
qed

lemma chords_of_groups_sorted:
  assumes "sorted_wrt (<) (map fst tw)" "groupsOK tw"
  shows "sorted_wrt (<) (map chordStart (concat (map (\<lambda>kg. chordOfWindow (snd kg)) tw))) \<and>
         (\<forall>c \<in> set (concat (map (\<lambda>kg. chordOfWindow (snd kg)) tw)).
            chordKey c \<in> set (map fst tw) \<and> chordStart c \<le> chordEnd c)"
  using assms
proof (induction tw)
  case Nil
  show ?case by simp
next
  case (Cons kg tw)
  obtain k g where kg: "kg = (k, g)" by (cases kg)
  have s: "sorted_wrt (<) (map fst tw)" and lt: "\<forall>k' \<in> set (map fst tw). k < k'"
    using Cons.prems(1) by (simp_all add: kg)
  have ok: "groupsOK tw"
    and okg: "\<forall>x \<in> set g. windowKey x = k \<and> 0 \<le> startTime x \<and> startTime x \<le> endTime x"
    using Cons.prems(2) by (simp_all add: groupsOK_Cons kg)
  let ?rest = "concat (map (\<lambda>kg. chordOfWindow (snd kg)) tw)"
  from Cons.IH[OF s ok] have ih1: "sorted_wrt (<) (map chordStart ?rest)"
    and ih2: "\<forall>c \<in> set ?rest. chordKey c \<in> set (map fst tw) \<and> chordStart c \<le> chordEnd c"
    by blast+
  have here: "chordKey c = k \<and> chordStart c \<le> chordEnd c" if "c \<in> set (chordOfWindow g)" for c
    using chordOfWindow_in_window[OF that okg] .
  have one: "sorted_wrt (<) (map chordStart (chordOfWindow g))"
    using length_chordOfWindow[of g] by (cases "chordOfWindow g") simp_all
  have cross: "chordStart a < chordStart b" if "a \<in> set (chordOfWindow g)" "b \<in> set ?rest" for a b
  proof -
    have "chordKey a = k" using here[OF that(1)] by simp
    moreover have "k < chordKey b" using ih2 that(2) lt by blast
    ultimately show ?thesis by (intro chordKey_less) simp
  qed
  have "sorted_wrt (<) (map chordStart (chordOfWindow g @ ?rest))"
    using one ih1 cross by (simp add: sorted_wrt_append) blast
  moreover have "\<forall>c \<in> set (chordOfWindow g @ ?rest).
      chordKey c \<in> set (map fst (kg # tw)) \<and> chordStart c \<le> chordEnd c"
    using here ih2 by (auto simp: kg)
  ultimately show ?case by (simp add: kg)
qed

lemma detectChords_timing:
  assumes "sorted_wrt (<) (map startTime ps)"
    and "\<forall>x \<in> set ps. 0 \<le> startTime x \<and> startTime x \<le> endTime x"
  shows "sorted_wrt (<) (map chordStart (detectChords ps))"
    and "\<forall>c \<in> set (detectChords ps). chordStart c \<le> chordEnd c"
proof -
  from groupByWindow_invariant[OF assms] have
    "sorted_wrt (<) (map fst (groupByWindow ps))" "groupsOK (groupByWindow ps)" by blast+
  from chords_of_groups_sorted[OF this] show
    "sorted_wrt (<) (map chordStart (detectChords ps))"
    "\<forall>c \<in> set (detectChords ps). chordStart c \<le> chordEnd c"
    unfolding detectChords_groups[OF assms] by blast+
qed

section \<open>A signal with chords\<close>

text \<open>A segment that is 0 except for two pairs of unit impulses, the first pair near the
  edge of the window (up to the position 651, where the window value is at most 1/4), the
  second under its middle (between the positions 1304 and 2932, where it is at least
  1/2), with different distances: the second pair decides the estimate.\<close>

lemma detect_four_impulses:
  assumes len: "length seg = bufferSize"
    and zero: "\<And>i. i < bufferSize \<Longrightarrow> i \<noteq> p1 \<Longrightarrow> i \<noteq> q1 \<Longrightarrow> i \<noteq> p2 \<Longrightarrow> i \<noteq> q2 \<Longrightarrow> seg ! i = Num 0"
    and ones: "seg ! p1 = Num 1" "seg ! q1 = Num 1" "seg ! p2 = Num 1" "seg ! q2 = Num 1"
    and ord: "p1 < q1" "q1 \<le> 651" "1304 \<le> p2" "p2 < q2" "q2 \<le> 2932"
    and lag: "minSamples \<le> q2 - p2" "q2 - p2 < maxSamples" "q1 - p1 \<noteq> q2 - p2"
  shows "detectPitchAutocorrelation seg = sampleRate / real (q2 - p2)"
proof -
  let ?w = "applyHannWindow seg"
  let ?R = "storedCorrelation seg"
  have b: "p1 < bufferSize" "q1 < bufferSize" "p2 < bufferSize" "q2 < bufferSize"
    using ord by (simp_all add: bufferSize_def)
  have lenw: "length ?w = bufferSize" by (simp add: applyHannWindow_def len)
  have w0: "?w ! i = Num 0" if "i < bufferSize" "i \<noteq> p1" "i \<noteq> q1" "i \<noteq> p2" "i \<noteq> q2" for i
    using len that(1) zero[OF that] by (rule windowed_zero)
  have "finiteIn (of_int 0 / 4) (of_int 1 / 4) (?w ! p1)"
    using windowValue_edge[of p1] ord by (intro windowed_one[OF len b(1) ones(1)]) simp_all
  then obtain x1 where x1: "?w ! p1 = Num x1" "0 \<le> x1" "x1 \<le> 1 / 4" by (auto elim!: finiteInE)
  have "finiteIn (of_int 0 / 4) (of_int 1 / 4) (?w ! q1)"
    using windowValue_edge[of q1] ord by (intro windowed_one[OF len b(2) ones(2)]) simp_all
  then obtain y1 where y1: "?w ! q1 = Num y1" "0 \<le> y1" "y1 \<le> 1 / 4" by (auto elim!: finiteInE)
  have "finiteIn (of_int 2 / 4) (of_int 4 / 4) (?w ! p2)"
    using windowValue_centre[of p2] ord by (intro windowed_one[OF len b(3) ones(3)]) simp_all
  then obtain x2 where x2: "?w ! p2 = Num x2" "1 / 2 \<le> x2" "x2 \<le> 1" by (auto elim!: finiteInE)
  have "finiteIn (of_int 2 / 4) (of_int 4 / 4) (?w ! q2)"
    using windowValue_centre[of q2] ord by (intro windowed_one[OF len b(4) ones(4)]) simp_all
  then obtain y2 where y2: "?w ! q2 = Num y2" "1 / 2 \<le> y2" "y2 \<le> 1" by (auto elim!: finiteInE)
  have fin: "\<exists>r. ?w ! i = Num r" if "i < bufferSize" for i
    using w0[OF that] x1(1) y1(1) x2(1) y2(1)
    by (cases "i = p1"; cases "i = q1"; cases "i = p2"; cases "i = q2") auto
  have far: "552 \<le> p2 - q1" using ord by simp
  have pairs: "?w ! i = Num 0 \<or> ?w ! (i + l) = Num 0"
    if "i < bufferSize - l" "0 < l" "l < maxSamples"
      "\<not> (i = p1 \<and> l = q1 - p1)" "\<not> (i = p2 \<and> l = q2 - p2)" for i l
  proof (cases "i = p1 \<or> i = q1 \<or> i = p2 \<or> i = q2")
    case False
    moreover have "i < bufferSize" using that(1) by simp
    ultimately show ?thesis using w0 by blast
  next
    case True
    have l: "l < 552" using that(3) by (simp add: maxSamples_eq)
    have "i + l \<noteq> p1" "i + l \<noteq> q1" "i + l \<noteq> p2" "i + l \<noteq> q2"
      using True that(2,4,5) l ord far by linarith+
    moreover have "i + l < bufferSize" using that(1) by simp
    ultimately show ?thesis using w0 by blast
  qed
  have m0: "0 < l" if "minSamples \<le> l" for l using that by (simp add: minSamples_eq)
  have R2: "finiteIn (of_int 4 / 16) (of_int 16 / 16) (?R (q2 - p2))"
  proof -
    have "(1 / 2) * (1 / 2) \<le> x2 * y2" using x2(2) y2(2) by (intro mult_mono) simp_all
    moreover have "x2 * y2 \<le> 1 * 1" using x2 y2 by (intro mult_mono) simp_all
    ultimately have "finiteIn (of_int 4 / 16) (of_int 16 / 16) (autocorrelationAt ?w (q2 - p2))"
    proof (intro autocorrelationAt_single[OF lenw fin, where p = p2 and x = x2 and y = y2])
      show "p2 < bufferSize - (q2 - p2)" using ord b by simp
      show "?w ! p2 = Num x2" by (rule x2(1))
      show "?w ! (p2 + (q2 - p2)) = Num y2" using ord y2(1) by simp
      fix i assume i: "i < bufferSize - (q2 - p2)" "i \<noteq> p2"
      show "?w ! i = Num 0 \<or> ?w ! (i + (q2 - p2)) = Num 0"
        using i lag m0[OF lag(1)] by (intro pairs) auto
    qed simp_all
    then show ?thesis using b by (simp add: storedCorrelation_eq)
  qed
  have R1: "finiteIn (of_int 0 / 16) (of_int 1 / 16) (?R (q1 - p1))" if "q1 - p1 < maxSamples"
  proof -
    have "0 \<le> x1 * y1" using x1(2) y1(2) by simp
    moreover have "x1 * y1 \<le> (1 / 4) * (1 / 4)" using x1 y1 by (intro mult_mono) simp_all
    ultimately have "finiteIn (of_int 0 / 16) (of_int 1 / 16) (autocorrelationAt ?w (q1 - p1))"
    proof (intro autocorrelationAt_single[OF lenw fin, where p = p1 and x = x1 and y = y1])
      show "p1 < bufferSize - (q1 - p1)" using ord b by simp
      show "?w ! p1 = Num x1" by (rule x1(1))
      show "?w ! (p1 + (q1 - p1)) = Num y1" using ord y1(1) by simp
      fix i assume i: "i < bufferSize - (q1 - p1)" "i \<noteq> p1"
      show "?w ! i = Num 0 \<or> ?w ! (i + (q1 - p1)) = Num 0"
        using i that lag(3) ord by (intro pairs) auto
    qed simp_all
    then show ?thesis using b by (simp add: storedCorrelation_eq)
  qed
  have R0: "?R l = Num 0" if "minSamples \<le> l" "l < maxSamples" "l \<noteq> q1 - p1" "l \<noteq> q2 - p2" for l
  proof -
    have "autocorrelationAt ?w l = Num 0"
    proof (rule autocorrelationAt_zero[OF lenw fin])
      fix i assume "i < bufferSize - l"
      then show "?w ! i = Num 0 \<or> ?w ! (i + l) = Num 0"
        using that m0[OF that(1)] by (intro pairs) auto
    qed
    moreover have "l < bufferSize" using that(2) maxSamples_le_bufferSize by simp
    ultimately show ?thesis by (simp add: storedCorrelation_eq)
  qed
  obtain r2 where r2: "?R (q2 - p2) = Num r2" "1 / 4 \<le> r2" using R2 by (auto elim!: finiteInE)
  show ?thesis
  proof (rule detect_unique_peak[OF lag(1,2)])
    show "jsgt (?R (q2 - p2)) (Num 0)" using r2 by simp
    fix l assume l: "minSamples \<le> l" "l < maxSamples" "l \<noteq> q2 - p2"
    show "jsgt (?R (q2 - p2)) (?R l)"
    proof (cases "l = q1 - p1")
      case True
      obtain r1 where "?R (q1 - p1) = Num r1" "r1 \<le> 1 / 16"
        using R1 l(2) True by (auto elim!: finiteInE)
      then show ?thesis using r2 True by simp
    next
      case False
      then show ?thesis using R0[OF l(1,2) False l(3)] r2 by simp
    qed
  qed
qed

lemma lagOf_bounds: "67 \<le> lagOf j" "lagOf j \<le> 100"
  by (simp_all add: lagOf_def)

lemma lagOf_Suc: "lagOf j \<noteq> lagOf (Suc j)"
  by (simp add: lagOf_def mod_Suc) presburger

lemma arpeggioPositions_iff:
  "x \<in> set arpeggioPositions \<longleftrightarrow>
     (\<exists>j<10. x = 2048 * j + 500 \<or> x = 2048 * j + 500 + lagOf j)"
  unfolding arpeggioPositions_def by (simp only: set_concat set_map set_upt) auto

lemma arpeggio_segment:
  assumes "i < 9"
  shows "detectPitchAutocorrelation
           (take bufferSize (drop (2048 * i) (impulses 20481 arpeggioPositions)))
         = sampleRate / real (lagOf (Suc i))"
proof -
  let ?seg = "take bufferSize (drop (2048 * i) (impulses 20481 arpeggioPositions))"
  have bs: "bufferSize = 4096" by (simp add: bufferSize_def)
  have fit: "2048 * i + bufferSize \<le> 20481" using assms unfolding bs by linarith
  have len: "length ?seg = bufferSize" using fit by (simp add: length_impulses)
  have nth: "?seg ! m = (if 2048 * i + m \<in> set arpeggioPositions then Num 1 else Num 0)"
    if "m < bufferSize" for m
    using that fit by (simp add: length_impulses impulses_nth)
  have lo: "67 \<le> lagOf i" "lagOf i \<le> 100" "67 \<le> lagOf (Suc i)" "lagOf (Suc i) \<le> 100"
    by (rule lagOf_bounds)+
  have in1: "2048 * i + 500 \<in> set arpeggioPositions"
    "2048 * i + (500 + lagOf i) \<in> set arpeggioPositions"
    unfolding arpeggioPositions_iff using assms by (auto intro: exI[of _ i])
  have in2: "2048 * i + 2548 \<in> set arpeggioPositions"
    "2048 * i + (2548 + lagOf (Suc i)) \<in> set arpeggioPositions"
    unfolding arpeggioPositions_iff using assms by (auto intro!: exI[of _ "Suc i"])
  have out: "2048 * i + m \<notin> set arpeggioPositions"
    if m: "m < bufferSize" "m \<noteq> 500" "m \<noteq> 500 + lagOf i" "m \<noteq> 2548" "m \<noteq> 2548 + lagOf (Suc i)" for m
  proof
    assume "2048 * i + m \<in> set arpeggioPositions"
    then obtain j where j: "2048 * i + m = 2048 * j + 500 \<or> 2048 * i + m = 2048 * j + 500 + lagOf j"
      unfolding arpeggioPositions_iff by blast
    have lj: "lagOf j \<le> 100" by (rule lagOf_bounds)
    have "i \<le> j" using j lj by linarith
    moreover have "j \<le> Suc i" using j m(1) unfolding bs by linarith
    ultimately have "j = i \<or> j = Suc i" by linarith
    then show False using j m by auto
  qed
  have "detectPitchAutocorrelation ?seg = sampleRate / real ((2548 + lagOf (Suc i)) - 2548)"
  proof (rule detect_four_impulses[where ?p1.0 = 500 and ?q1.0 = "500 + lagOf i"])
    show "length ?seg = bufferSize" by (rule len)
    show "?seg ! m = Num 0"
      if "m < bufferSize" "m \<noteq> 500" "m \<noteq> 500 + lagOf i" "m \<noteq> 2548" "m \<noteq> 2548 + lagOf (Suc i)" for m
      using nth[OF that(1)] out[OF that] by simp
    show "?seg ! 500 = Num 1" using nth[of 500] in1(1) by (simp add: bs)
    show "?seg ! (500 + lagOf i) = Num 1" using nth[of "500 + lagOf i"] in1(2) lo by (simp add: bs)
    show "?seg ! 2548 = Num 1" using nth[of 2548] in2(1) by (simp add: bs)
    show "?seg ! (2548 + lagOf (Suc i)) = Num 1"
      using nth[of "2548 + lagOf (Suc i)"] in2(2) lo by (simp add: bs)
    show "500 < 500 + lagOf i" using lo by simp
    show "500 + lagOf i \<le> 651" using lo by simp
    show "(1304::nat) \<le> 2548" by simp
    show "2548 < 2548 + lagOf (Suc i)" using lo by simp
    show "2548 + lagOf (Suc i) \<le> 2932" using lo by simp
    show "minSamples \<le> 2548 + lagOf (Suc i) - 2548" using lo by (simp add: minSamples_eq)
    show "2548 + lagOf (Suc i) - 2548 < maxSamples" using lo by (simp add: maxSamples_eq)
    show "500 + lagOf i - 500 \<noteq> 2548 + lagOf (Suc i) - 2548" using lagOf_Suc[of i] by simp
  qed
  then show ?thesis by simp
qed

lemma semitones_by_power:
  fixes x :: real
  assumes "0 < x" "2 ^ (2 * s - 1) \<le> x ^ 24" "x ^ 24 < 2 ^ (2 * s + 1)" "0 < s"
  shows "round (12 * log 2 x) = int s"
proof (rule round_between)
  have p: "24 * log 2 x = log 2 (x ^ 24)" using assms(1) by (simp add: log_nat_power)
  have l2: "log 2 ((2::real) ^ n) = real n" for n by (simp add: log_nat_power)
  have "log 2 (2 ^ (2 * s - 1)) \<le> log 2 (x ^ 24)"
    using assms(1,2) by (subst log_le_cancel_iff) simp_all
  then have lo: "real (2 * s - 1) \<le> 24 * log 2 x" by (simp only: p l2)
  have "log 2 (x ^ 24) < log 2 (2 ^ (2 * s + 1))"
    using assms(1,3) by (subst log_less_cancel_iff) simp_all
  then have up: "24 * log 2 x < real (2 * s + 1)" by (simp only: p l2)
  have "real (2 * s - 1) = 2 * real s - 1" using assms(4) by simp
  then show "real_of_int (int s) - 1 / 2 \<le> 12 * log 2 x" using lo by simp
  show "12 * log 2 x < real_of_int (int s) + 1 / 2" using up by simp
qed

lemma semitones_80: "round (12 * log 2 (2205 / 4 / 440)) = 4"
  using semitones_by_power[of "2205 / 4 / 440" 4] by (simp add: power_divide)

lemma semitones_67: "round (12 * log 2 (44100 / 67 / 440)) = 7"
  using semitones_by_power[of "44100 / 67 / 440" 7] by (simp add: power_divide)

lemma note_80: "name (frequencyToNote (2205 / 4)) = ''A#''" "octave (frequencyToNote (2205 / 4)) = 4"
  using frequencyToNote_semitones[OF semitones_80] by (simp_all add: noteNames_def)

lemma note_67: "name (frequencyToNote (44100 / 67)) = ''C#''" "octave (frequencyToNote (44100 / 67)) = 5"
  using frequencyToNote_semitones[OF semitones_67] by (simp_all add: noteNames_def)

lemma arpeggio_mono: "convertToMono arpeggio = impulses 20481 arpeggioPositions"
  by (simp add: convertToMono_def arpeggio_def numberOfChannels_def)

lemma segmentCount_20481: "segmentCount 0 20481 = 9"
  by (simp add: segmentCount_def bufferSize_def)

lemma arpeggio_segments:
  "segmentAudio (impulses 20481 ps) =
     map (\<lambda>k. take bufferSize (drop k (impulses 20481 ps)))
       [0, 2048, 4096, 6144, 8192, 10240, 12288, 14336, 16384]"
proof -
  have "[0..<9] = [0, 1, 2, 3, 4, 5, 6, 7, 8::nat]" by (simp add: upt_rec)
  then show ?thesis
    by (simp add: segmentAudio_eq length_impulses segmentCount_20481) (simp add: bufferSize_def)
qed

lemma arpeggio_frequencies:
  "map detectPitchAutocorrelation (segmentAudio (convertToMono arpeggio)) =
     [441, 2205 / 4, 44100 / 67, 441, 2205 / 4, 44100 / 67, 441, 2205 / 4, 44100 / 67]"
  using arpeggio_segment[of 0] arpeggio_segment[of 1] arpeggio_segment[of 2]
    arpeggio_segment[of 3] arpeggio_segment[of 4] arpeggio_segment[of 5]
    arpeggio_segment[of 6] arpeggio_segment[of 7] arpeggio_segment[of 8]
  by (simp add: arpeggio_mono arpeggio_segments lagOf_def sampleRate_def)

lemma pitchesFrom_in_range:
  assumes "list_all inRange (map detectPitchAutocorrelation segs)"
  shows "pitchesFrom i segs =
     map (\<lambda>(j, f). \<lparr>frequency = f, pitchNote = frequencyToNote f,
                     startTime = real j * segmentDuration * 0.5,
                     endTime = real j * segmentDuration * 0.5 + segmentDuration\<rparr>)
       (zip [i..<i + length segs] (map detectPitchAutocorrelation segs))"
  using assms
proof (induction segs arbitrary: i)
  case Nil
  show ?case by simp
next
  case (Cons s segs)
  have "i < i + length (s # segs)" by simp
  then have "[i..<i + length (s # segs)] = i # [Suc i..<i + length (s # segs)]"
    by (rule upt_conv_Cons)
  then have u: "[i..<i + length (s # segs)] = i # [Suc i..<Suc i + length segs]" by simp
  have "list_all inRange (map detectPitchAutocorrelation segs)" using Cons.prems by simp
  from Cons.IH[OF this, of "Suc i"] show ?case
    using Cons.prems unfolding u by (simp add: Let_def inRange_def)
qed

lemma arpeggio_pitches:
  "pitchesFrom 0 (segmentAudio (convertToMono arpeggio)) = arpeggioNotes"
proof -
  let ?segs = "segmentAudio (convertToMono arpeggio)"
  have f: "map detectPitchAutocorrelation ?segs =
     [441, 2205 / 4, 44100 / 67, 441, 2205 / 4, 44100 / 67, 441, 2205 / 4, 44100 / 67]"
    by (rule arpeggio_frequencies)
  have len: "length ?segs = 9" using arg_cong[OF f, of length] by simp
  have r: "list_all inRange (map detectPitchAutocorrelation ?segs)"
    unfolding f by (simp add: inRange_def minFrequency_def maxFrequency_def)
  have u: "[0..<9] = [0, 1, 2, 3, 4, 5, 6, 7, 8::nat]" by (simp add: upt_rec)
  show ?thesis
    unfolding pitchesFrom_in_range[OF r] len f
    by (simp add: u arpeggioNotes_def arpeggioNote_def segmentDuration_def bufferSize_def sampleRate_def)
qed

lemma arpeggio_detectPitches:
  "detectPitches (segmentAudio (convertToMono arpeggio)) = arpeggioNotes"
  unfolding detectPitches_def arpeggio_pitches
  by (simp add: arpeggioNotes_def arpeggioNote_def note_441 note_80 note_67)

lemma arpeggio_result: "analyzeAudio arpeggio = Inr arpeggioResult"
  by (simp add: analyzeAudio_def Let_def arpeggio_detectPitches arpeggioResult_def)

lemma arpeggioNote_key:
  "i \<le> 4 \<Longrightarrow> windowKey (arpeggioNote f i) = 0"
  "5 \<le> i \<Longrightarrow> i \<le> 8 \<Longrightarrow> windowKey (arpeggioNote f i) = 1"
proof -
  have t: "startTime (arpeggioNote f i) = real i * 2048 / 44100" by (simp add: arpeggioNote_def)
  show "windowKey (arpeggioNote f i) = 0" if "i \<le> 4"
    unfolding windowKey_def t
  proof (rule timeKey_between)
    have i: "0 \<le> real i" "real i \<le> 4" using that by simp_all
    show "real_of_int 0 \<le> real i * 2048 / 44100 / timeWindow" using i by (simp add: timeWindow_def)
    show "real i * 2048 / 44100 / timeWindow \<le> real_of_int (16 * 0 + 15) / 16"
      using i by (simp add: timeWindow_def)
  qed simp
  show "windowKey (arpeggioNote f i) = 1" if "5 \<le> i" "i \<le> 8"
    unfolding windowKey_def t
  proof (rule timeKey_between)
    have i: "5 \<le> real i" "real i \<le> 8" using that by simp_all
    show "real_of_int 1 \<le> real i * 2048 / 44100 / timeWindow" using i by (simp add: timeWindow_def)
    show "real i * 2048 / 44100 / timeWindow \<le> real_of_int (16 * 1 + 15) / 16"
      using i by (simp add: timeWindow_def)
  qed simp
qed

lemma arpeggio_groups:
  "groupByWindow arpeggioNotes =
     [(0, [arpeggioNote 441 0, arpeggioNote (2205 / 4) 1, arpeggioNote (44100 / 67) 2,
           arpeggioNote 441 3, arpeggioNote (2205 / 4) 4]),
      (1, [arpeggioNote (44100 / 67) 5, arpeggioNote 441 6, arpeggioNote (2205 / 4) 7,
           arpeggioNote (44100 / 67) 8])]"
proof -
  have k: "timeKey (startTime (arpeggioNote f i)) = (if i \<le> 4 then 0 else 1)" if "i \<le> 8" for f i
    using arpeggioNote_key[of i f] that by (simp add: windowKey_def)
  show ?thesis
    unfolding groupByWindow_def arpeggioNotes_def by (simp add: k)
qed

lemma identify_Fsharp_major:
  "identifyChord [''F#'', ''A#'', ''C#''] = Some (''F#'', ''Major'')"
  "identifyChord [''C#'', ''F#'', ''A#''] = Some (''F#'', ''Major'')"
  by (simp_all add: identifyChord_def calculateInterval_def jsrem_def chordDefinitions_def
      intervalsMatchChord_def Let_def)

lemma arpeggio_chords:
  "map (\<lambda>c. (root c, chordType c, chordNotes c, chordStart c, chordEnd c)) (detectChords arpeggioNotes) =
     [(''F#'', ''Major'', [''F#'', ''A#'', ''C#''], 0, 12288 / 44100),
      (''F#'', ''Major'', [''C#'', ''F#'', ''A#''], 10240 / 44100, 20480 / 44100)]"
proof -
  have n: "name (pitchNote (arpeggioNote 441 i)) = ''F#''"
    "name (pitchNote (arpeggioNote (2205 / 4) i)) = ''A#''"
    "name (pitchNote (arpeggioNote (44100 / 67) i)) = ''C#''" for i
    by (simp_all add: arpeggioNote_def note_441 note_80 note_67)
  have t: "startTime (arpeggioNote f i) = real i * 2048 / 44100"
    "endTime (arpeggioNote f i) = real i * 2048 / 44100 + 4096 / 44100" for f i
    by (simp_all add: arpeggioNote_def)
  show ?thesis
    unfolding detectChords_def arpeggio_groups Let_def
    by (simp add: objectKeys_def isArrayIndex_def chordOfWindow_def n t identify_Fsharp_major Let_def)
qed

text \<open>Chords overlap as well: the nine segments of \<open>arpeggio\<close> give nine notes, no two
  adjacent ones equal; those starting in the first and in the second window of 0.2 s
  each form a chord, and the second chord starts before the first one ends.\<close>

lemma chords_can_overlap:
  "analyzeAudio arpeggio = Inr arpeggioResult \<and>
   map (\<lambda>c. (chordStart c, chordEnd c)) (complexChords arpeggioResult)
     = [(0, 12288 / 44100), (10240 / 44100, 20480 / 44100)] \<and>
   \<not> nonOverlapping (map (\<lambda>c. (chordStart c, chordEnd c)) (complexChords arpeggioResult))"
proof -
  have "map (\<lambda>c. (chordStart c, chordEnd c)) (complexChords arpeggioResult)
     = map (\<lambda>(r, t, n, s, e). (s, e))
         (map (\<lambda>c. (root c, chordType c, chordNotes c, chordStart c, chordEnd c)) (detectChords arpeggioNotes))"
    by (simp add: arpeggioResult_def convertToMusicalNotation_def o_def)
  then have "map (\<lambda>c. (chordStart c, chordEnd c)) (complexChords arpeggioResult)
     = [(0, 12288 / 44100), (10240 / 44100, 20480 / 44100)]"
    unfolding arpeggio_chords by simp
  then show ?thesis using arpeggio_result by (simp add: nonOverlapping_def)
qed

lemma arpeggio_note_fields:
  "name (pitchNote (arpeggioNote 441 i)) = ''F#''"
  "name (pitchNote (arpeggioNote (2205 / 4) i)) = ''A#''"
  "name (pitchNote (arpeggioNote (44100 / 67) i)) = ''C#''"
  "startTime (arpeggioNote f i) = real i * 2048 / 44100"
  "endTime (arpeggioNote f i) = real i * 2048 / 44100 + 4096 / 44100"
  by (simp_all add: arpeggioNote_def note_441 note_80 note_67)

section \<open>The transcription result\<close>

lemma detectPitches_timing:
  "sorted_wrt (<) (map startTime (detectPitches segs))"
  "\<forall>p \<in> set (detectPitches segs). 0 \<le> startTime p \<and> startTime p \<le> endTime p"
proof -
  let ?raw = "pitchesFrom 0 segs"
  have s: "sorted_wrt (<) (map startTime ?raw)" by (rule pitchesFrom_sorted)
  have se: "\<forall>x \<in> set ?raw. startTime x \<le> endTime x" using pitchesFrom_start_le_end by blast
  have nn: "\<forall>x \<in> set ?raw. 0 \<le> startTime x" using pitchesFrom_nonneg by blast
  show "sorted_wrt (<) (map startTime (detectPitches segs))"
    unfolding detectPitches_def using s by (rule consolidateNotes_sorted)
  show "\<forall>p \<in> set (detectPitches segs). 0 \<le> startTime p \<and> startTime p \<le> endTime p"
    unfolding detectPitches_def
    using consolidateNotes_start_le_end[OF s se] consolidateNotes_nonneg[OF s nn] by blast
qed

text \<open>Claim C3, as far as the source has it. In every result of \<open>analyzeAudio\<close>: every
  note starts no later than it ends (in \<open>rawPitchData\<close>; a simple note has a duration that
  is not negative), and so does every chord; and each of the four sequences is ordered by
  start time, strictly increasing. That the time ranges within \<open>simpleNotes\<close> or within
  \<open>complexChords\<close> do not overlap is not part of the statement: the analysed segments
  overlap by half their length, and so do the notes of adjacent segments; a chord lasts
  from the first start to the last end of the notes that start in its window, and may
  reach into the next window (\<open>chords_can_overlap\<close>).\<close>

theorem analyzeAudio_timing:
  assumes "analyzeAudio b = Inr r"
  shows "list_all (\<lambda>p. startTime p \<le> endTime p) (rawPitchData r) \<and>
         list_all (\<lambda>s. 0 \<le> simpleDuration s) (simpleNotes r) \<and>
         list_all (\<lambda>c. chordStart c \<le> chordEnd c) (complexChords r) \<and>
         sorted_wrt (<) (map startTime (rawPitchData r)) \<and>
         sorted_wrt (<) (map simpleStart (simpleNotes r)) \<and>
         sorted_wrt (<) (map sheetStart (sheetNotes (sheetMusicOf r))) \<and>
         sorted_wrt (<) (map chordStart (complexChords r))"
proof -
  let ?pd = "detectPitches (segmentAudio (convertToMono b))"
  have r: "r = convertToMusicalNotation ?pd"
    using assms by (simp add: analyzeAudio_def Let_def)
  have s: "sorted_wrt (<) (map startTime ?pd)"
    and t: "\<forall>p \<in> set ?pd. 0 \<le> startTime p \<and> startTime p \<le> endTime p"
    by (rule detectPitches_timing)+
  have c: "sorted_wrt (<) (map chordStart (detectChords ?pd))"
    "\<forall>c \<in> set (detectChords ?pd). chordStart c \<le> chordEnd c"
    using detectChords_timing[OF s t] by blast+
  have 1: "list_all (\<lambda>p. startTime p \<le> endTime p) (rawPitchData r)"
    using t by (simp add: r convertToMusicalNotation_def list_all_iff)
  have 2: "list_all (\<lambda>s. 0 \<le> simpleDuration s) (simpleNotes r)"
    using t by (simp add: r convertToMusicalNotation_def generateSimpleNotes_def list_all_iff)
  have 3: "list_all (\<lambda>c. chordStart c \<le> chordEnd c) (complexChords r)"
    using c(2) by (simp add: r convertToMusicalNotation_def list_all_iff)
  have 4: "sorted_wrt (<) (map startTime (rawPitchData r))"
    using s by (simp add: r convertToMusicalNotation_def)
  have 5: "sorted_wrt (<) (map simpleStart (simpleNotes r))"
    using s by (simp add: r convertToMusicalNotation_def generateSimpleNotes_def o_def)
  have 6: "sorted_wrt (<) (map sheetStart (sheetNotes (sheetMusicOf r)))"
    using s by (simp add: r convertToMusicalNotation_def generateSheetMusic_def o_def)
  have 7: "sorted_wrt (<) (map chordStart (complexChords r))"
    using c(1) by (simp add: r convertToMusicalNotation_def)
  from 1 2 3 4 5 6 7 show ?thesis by blast
qed

text \<open>The result for \<open>arpeggio\<close>: nine notes and two chords.\<close>

theorem analyzeAudio_timing_witness:
  "analyzeAudio arpeggio = Inr arpeggioResult \<and>
   map startTime (rawPitchData arpeggioResult)
     = [0, 2048 / 44100, 4096 / 44100, 6144 / 44100, 8192 / 44100, 10240 / 44100,
        12288 / 44100, 14336 / 44100, 16384 / 44100] \<and>
   map (\<lambda>c. (chordStart c, chordEnd c)) (complexChords arpeggioResult)
     = [(0, 12288 / 44100), (10240 / 44100, 20480 / 44100)] \<and>
   list_all (\<lambda>p. startTime p \<le> endTime p) (rawPitchData arpeggioResult) \<and>
   list_all (\<lambda>s. 0 \<le> simpleDuration s) (simpleNotes arpeggioResult) \<and>
   list_all (\<lambda>c. chordStart c \<le> chordEnd c) (complexChords arpeggioResult) \<and>
   sorted_wrt (<) (map startTime (rawPitchData arpeggioResult)) \<and>
   sorted_wrt (<) (map simpleStart (simpleNotes arpeggioResult)) \<and>
   sorted_wrt (<) (map sheetStart (sheetNotes (sheetMusicOf arpeggioResult))) \<and>
   sorted_wrt (<) (map chordStart (complexChords arpeggioResult))"
proof -
  have 1: "map startTime (rawPitchData arpeggioResult)
     = [0, 2048 / 44100, 4096 / 44100, 6144 / 44100, 8192 / 44100, 10240 / 44100,
        12288 / 44100, 14336 / 44100, 16384 / 44100]"
    by (simp add: arpeggioResult_def convertToMusicalNotation_def arpeggioNotes_def
        arpeggio_note_fields)
  have 2: "map (\<lambda>c. (chordStart c, chordEnd c)) (complexChords arpeggioResult)
     = [(0, 12288 / 44100), (10240 / 44100, 20480 / 44100)]"
    using chords_can_overlap by blast
  show ?thesis
    using 1 2 arpeggio_result analyzeAudio_timing[OF arpeggio_result] by blast
qed

lemma frequency_pitchesFrom:
  "map frequency (pitchesFrom i segs) = filter inRange (map detectPitchAutocorrelation segs)"
  by (induction segs arbitrary: i) (simp_all add: Let_def inRange_def)

lemma frequency_consolidateNotes:
  assumes "y \<in> set (consolidateNotes xs)"
  shows "frequency y \<in> set (map frequency xs)"
proof -
  obtain x where x: "x \<in> set xs" "y = x\<lparr>endTime := endTime y\<rparr>"
    using consolidateNotes_source[OF assms] by blast
  from x(2) have "\<exists>e. y = x\<lparr>endTime := e\<rparr>" by (rule exI)
  then obtain e where "y = x\<lparr>endTime := e\<rparr>" by blast
  then have "frequency y = frequency x" by simp
  then show ?thesis using x(1) by simp
qed

lemma consolidateFrom_nonempty: "consolidateFrom c ns \<noteq> []"
  using consolidateFrom_hd[of c ns] by auto

lemma consolidateNotes_Nil_iff: "consolidateNotes xs = [] \<longleftrightarrow> xs = []"
  by (cases xs) (simp_all add: consolidateFrom_nonempty)

text \<open>Claim C4, as the source has it. \<open>rawPitchData\<close> is the consolidated sequence:
  \<open>consolidateNotes\<close> applied to the samples of the analysed segments, of which there is
  exactly one for each segment whose detected frequency lies in the detection range, in
  segment order, and none for any other segment. So \<open>rawPitchData\<close> has at most one entry
  for each such segment, every entry has a frequency in the range, and it is empty exactly
  when no segment has one.\<close>

theorem rawPitchData_consolidated:
  assumes "analyzeAudio b = Inr r"
  shows "rawPitchData r = consolidateNotes (pitchesFrom 0 (segmentAudio (convertToMono b))) \<and>
         map frequency (pitchesFrom 0 (segmentAudio (convertToMono b)))
           = filter inRange (map detectPitchAutocorrelation (segmentAudio (convertToMono b))) \<and>
         length (rawPitchData r)
           \<le> length (filter inRange (map detectPitchAutocorrelation (segmentAudio (convertToMono b)))) \<and>
         list_all (\<lambda>p. inRange (frequency p)) (rawPitchData r) \<and>
         (rawPitchData r = [] \<longleftrightarrow>
            filter inRange (map detectPitchAutocorrelation (segmentAudio (convertToMono b))) = [])"
proof -
  let ?segs = "segmentAudio (convertToMono b)"
  let ?raw = "pitchesFrom 0 ?segs"
  have r: "rawPitchData r = consolidateNotes ?raw"
    using assms by (auto simp: analyzeAudio_def Let_def convertToMusicalNotation_def detectPitches_def)
  have f: "map frequency ?raw = filter inRange (map detectPitchAutocorrelation ?segs)"
    by (rule frequency_pitchesFrom)
  have "length (consolidateNotes ?raw) \<le> length (map frequency ?raw)"
    using length_consolidateNotes[of ?raw] by simp
  then have l: "length (rawPitchData r) \<le> length (filter inRange (map detectPitchAutocorrelation ?segs))"
    unfolding r f .
  have a: "list_all (\<lambda>p. inRange (frequency p)) (rawPitchData r)"
    unfolding r list_all_iff
  proof
    fix y assume "y \<in> set (consolidateNotes ?raw)"
    then have "frequency y \<in> set (map frequency ?raw)" by (rule frequency_consolidateNotes)
    then show "inRange (frequency y)" unfolding f by simp
  qed
  have "?raw = [] \<longleftrightarrow> map frequency ?raw = []" by simp
  then have e: "rawPitchData r = [] \<longleftrightarrow> filter inRange (map detectPitchAutocorrelation ?segs) = []"
    unfolding r consolidateNotes_Nil_iff f .
  from r f l a e show ?thesis by blast
qed

lemma heldNote_detectPitches:
  "detectPitches (segmentAudio (convertToMono heldNote)) =
     [\<lparr>frequency = 441, pitchNote = frequencyToNote 441, startTime = 0, endTime = 6144 / 44100\<rparr>]"
  unfolding detectPitches_def heldNote_pitches by simp

lemma heldNote_result: "analyzeAudio heldNote = Inr heldNoteResult"
  by (simp add: analyzeAudio_def Let_def heldNote_detectPitches heldNoteResult_def)

theorem rawPitchData_consolidated_witness:
  "analyzeAudio heldNote = Inr heldNoteResult \<and>
   map frequency (rawPitchData heldNoteResult) = [441] \<and>
   filter inRange (map detectPitchAutocorrelation (segmentAudio (convertToMono heldNote))) = [441, 441] \<and>
   rawPitchData heldNoteResult = consolidateNotes (pitchesFrom 0 (segmentAudio (convertToMono heldNote))) \<and>
   length (rawPitchData heldNoteResult)
     \<le> length (filter inRange (map detectPitchAutocorrelation (segmentAudio (convertToMono heldNote)))) \<and>
   list_all (\<lambda>p. inRange (frequency p)) (rawPitchData heldNoteResult)"
proof -
  have 1: "map frequency (rawPitchData heldNoteResult) = [441]"
    by (simp add: heldNoteResult_def convertToMusicalNotation_def)
  have 2: "filter inRange (map detectPitchAutocorrelation (segmentAudio (convertToMono heldNote))) = [441, 441]"
    by (simp add: heldNote_mono segments_6145 heldNote_segment0 heldNote_segment1 inRange_def
        minFrequency_def maxFrequency_def)
  show ?thesis
    using 1 2 heldNote_result rawPitchData_consolidated[OF heldNote_result] by blast
qed

section \<open>Spelling of sharps\<close>

lemma frequencyToNote_name: "name (frequencyToNote f) \<in> set noteNames"
proof -
  let ?s = "round (12 * log 2 (f / 440))"
  have "name (frequencyToNote f) = noteNames ! nat ((?s + 9) mod 12)"
    by (rule frequencyToNote_semitones(1)) (rule refl)
  moreover have "nat ((?s + 9) mod 12) < length noteNames"
    by (simp add: noteNames_def nat_less_iff)
  ultimately show ?thesis by (simp only: nth_mem)
qed

lemma pitchesFrom_note:
  "p \<in> set (pitchesFrom i segs) \<Longrightarrow> pitchNote p = frequencyToNote (frequency p)"
  by (induction segs arbitrary: i) (auto simp: Let_def split: if_splits)

lemma consolidateNotes_note:
  assumes "y \<in> set (consolidateNotes xs)"
  shows "\<exists>x \<in> set xs. pitchNote y = pitchNote x \<and> frequency y = frequency x"
proof -
  obtain x where x: "x \<in> set xs" "y = x\<lparr>endTime := endTime y\<rparr>"
    using consolidateNotes_source[OF assms] by blast
  from x(2) have "\<exists>e. y = x\<lparr>endTime := e\<rparr>" by (rule exI)
  then obtain e where "y = x\<lparr>endTime := e\<rparr>" by blast
  then have "pitchNote y = pitchNote x \<and> frequency y = frequency x" by simp
  then show ?thesis using x(1) by blast
qed

lemma detectPitches_names:
  assumes "p \<in> set (detectPitches segs)"
  shows "noteNameOf p \<in> set noteNames"
proof -
  obtain x where x: "x \<in> set (pitchesFrom 0 segs)" "pitchNote p = pitchNote x"
    using consolidateNotes_note[of p "pitchesFrom 0 segs"] assms
    unfolding detectPitches_def by blast
  have "pitchNote p = frequencyToNote (frequency x)" using pitchesFrom_note[OF x(1)] x(2) by simp
  then show ?thesis by (simp add: noteNameOf_def frequencyToNote_name)
qed

lemma noteNames_spelling:
  assumes "nm \<in> set noteNames"
  shows "CHR ''#'' \<notin> set (replaceFirst (CHR ''#'') [CHR 0xE2, CHR 0x99, CHR 0xAF] nm)"
    and "set nm \<inter> set [CHR 0xE2, CHR 0x99, CHR 0xAF] = {}"
    and "CHR ''#'' \<in> set nm \<Longrightarrow> replaceFirst (CHR ''#'') [CHR 0xE2, CHR 0x99, CHR 0xAF] nm \<noteq> nm"
  using assms by (auto simp: noteNames_def)

lemma set_uniqueInOrder: "set (uniqueInOrder xs) = set xs"
proof (induction xs rule: uniqueInOrder.induct)
  case 1
  show ?case by simp
next
  case (2 x xs)
  then show ?case by auto
qed

lemma identifyFrom_root: "identifyFrom names roots = Some (r, t) \<Longrightarrow> r \<in> set roots"
  by (induction roots) (auto split: option.splits)

lemma identifyChord_root: "identifyChord names = Some (r, t) \<Longrightarrow> r \<in> set names"
  by (auto simp: identifyChord_def dest: identifyFrom_root split: if_splits)

lemma chordOfWindow_names:
  assumes "c \<in> set (chordOfWindow g)"
  shows "root c \<in> set (chordNotes c) \<and> set (chordNotes c) = set (map noteNameOf g)"
proof (cases "identifyChord (uniqueInOrder (map (\<lambda>n. name (pitchNote n)) g))")
  case None
  then show ?thesis using assms by (simp add: chordOfWindow_def Let_def split: if_splits)
next
  case (Some rt)
  obtain r t where rt: "rt = (r, t)" by (cases rt)
  have "root c = r" "chordNotes c = uniqueInOrder (map (\<lambda>n. name (pitchNote n)) g)"
    using assms Some by (simp_all add: chordOfWindow_def Let_def rt split: if_splits)
  moreover have "r \<in> set (uniqueInOrder (map (\<lambda>n. name (pitchNote n)) g))"
    using Some unfolding rt by (rule identifyChord_root)
  ultimately show ?thesis by (simp add: set_uniqueInOrder noteNameOf_def)
qed

lemma notes_addToWindow:
  "set (concat (map snd (addToWindow k p tw))) = insert p (set (concat (map snd tw)))"
proof (induction tw)
  case Nil
  show ?case by simp
next
  case (Cons kg tw)
  obtain k' g where kg: "kg = (k', g)" by (cases kg)
  show ?case
  proof (cases "k' = k")
    case True
    then show ?thesis by (auto simp: kg)
  next
    case False
    have "set (concat (map snd (addToWindow k p (kg # tw))))
        = set g \<union> set (concat (map snd (addToWindow k p tw)))"
      using False by (simp add: kg)
    also have "\<dots> = set g \<union> insert p (set (concat (map snd tw)))"
      by (simp only: Cons.IH)
    finally show ?thesis by (simp add: kg)
  qed
qed

lemma notes_groupByWindow: "set (concat (map snd (groupByWindow ps))) = set ps"
proof (induction ps rule: rev_induct)
  case Nil
  show ?case by (simp add: groupByWindow_def)
next
  case (snoc p ps)
  have "groupByWindow (ps @ [p]) = addToWindow (windowKey p) p (groupByWindow ps)"
    by (rule groupByWindow_snoc)
  then show ?case using snoc by (simp only: notes_addToWindow) simp
qed

lemma detectChords_source:
  assumes "c \<in> set (detectChords ps)"
  shows "\<exists>g. set g \<subseteq> set ps \<and> c \<in> set (chordOfWindow g)"
proof -
  from assms obtain k where
    "c \<in> set (case map_of (groupByWindow ps) k of Some notes \<Rightarrow> chordOfWindow notes | None \<Rightarrow> [])"
    by (auto simp: detectChords_def Let_def)
  then obtain g where g: "map_of (groupByWindow ps) k = Some g" "c \<in> set (chordOfWindow g)"
    by (cases "map_of (groupByWindow ps) k") simp_all
  have "(k, g) \<in> set (groupByWindow ps)" using g(1) by (rule map_of_SomeD)
  then have "set g \<subseteq> set (concat (map snd (groupByWindow ps)))" by force
  then have "set g \<subseteq> set ps" by (simp only: notes_groupByWindow)
  with g(2) show ?thesis by blast
qed

lemma detectChords_names:
  assumes "c \<in> set (detectChords ps)"
  shows "root c \<in> set (chordNotes c) \<and> set (chordNotes c) \<subseteq> set (map noteNameOf ps)"
proof -
  obtain g where g: "set g \<subseteq> set ps" "c \<in> set (chordOfWindow g)"
    using detectChords_source[OF assms] by blast
  from chordOfWindow_names[OF g(2)] g(1) show ?thesis by auto
qed

text \<open>Claim C10. In every result of \<open>analyzeAudio\<close>, with the pitch-class names of
  \<open>rawPitchData\<close> as reference: the names in \<open>simpleNotes\<close> are these names with \<open>#\<close>
  replaced by the sharp sign U+266F (written here as its UTF-8 bytes E2 99 AF), and
  contain no \<open>#\<close>; the pitches in the sheet music are these names unchanged, and the
  root and the notes of every chord are among them; the names come from \<open>noteNames\<close>, so
  they spell a sharp with \<open>#\<close> and never contain a byte of the sharp sign; and a name with
  a \<open>#\<close> is spelled differently in \<open>simpleNotes\<close> than in the other two views.\<close>

theorem sharp_spelling:
  assumes "analyzeAudio b = Inr r"
  shows "map simpleName (simpleNotes r)
           = map (\<lambda>p. replaceFirst (CHR ''#'') [CHR 0xE2, CHR 0x99, CHR 0xAF] (noteNameOf p))
               (rawPitchData r) \<and>
         map sheetPitch (sheetNotes (sheetMusicOf r)) = map noteNameOf (rawPitchData r) \<and>
         list_all (\<lambda>c. root c \<in> set (chordNotes c) \<and>
                       set (chordNotes c) \<subseteq> set (map noteNameOf (rawPitchData r)))
           (complexChords r) \<and>
         list_all (\<lambda>p. noteNameOf p \<in> set noteNames \<and>
                       set (noteNameOf p) \<inter> set [CHR 0xE2, CHR 0x99, CHR 0xAF] = {})
           (rawPitchData r) \<and>
         list_all (\<lambda>s. CHR ''#'' \<notin> set (simpleName s)) (simpleNotes r) \<and>
         list_all (\<lambda>p. CHR ''#'' \<in> set (noteNameOf p) \<longrightarrow>
                       replaceFirst (CHR ''#'') [CHR 0xE2, CHR 0x99, CHR 0xAF] (noteNameOf p) \<noteq> noteNameOf p)
           (rawPitchData r)"
proof -
  let ?pd = "detectPitches (segmentAudio (convertToMono b))"
  have r: "r = convertToMusicalNotation ?pd"
    using assms by (simp add: analyzeAudio_def Let_def)
  have nm: "noteNameOf p \<in> set noteNames" if "p \<in> set ?pd" for p
    using that by (rule detectPitches_names)
  have 1: "map simpleName (simpleNotes r)
      = map (\<lambda>p. replaceFirst (CHR ''#'') [CHR 0xE2, CHR 0x99, CHR 0xAF] (noteNameOf p)) (rawPitchData r)"
    by (simp add: r convertToMusicalNotation_def generateSimpleNotes_def o_def noteNameOf_def
        sharpSign_def)
  have 2: "map sheetPitch (sheetNotes (sheetMusicOf r)) = map noteNameOf (rawPitchData r)"
    by (simp add: r convertToMusicalNotation_def generateSheetMusic_def o_def noteNameOf_def)
  have 3: "list_all (\<lambda>c. root c \<in> set (chordNotes c) \<and>
                       set (chordNotes c) \<subseteq> set (map noteNameOf (rawPitchData r)))
           (complexChords r)"
    using detectChords_names[of _ ?pd]
    by (simp add: r convertToMusicalNotation_def list_all_iff)
  have 4: "list_all (\<lambda>p. noteNameOf p \<in> set noteNames \<and> set (noteNameOf p) \<inter> set [CHR 0xE2, CHR 0x99, CHR 0xAF] = {})
           (rawPitchData r)"
    using nm noteNames_spelling(2) by (simp add: r convertToMusicalNotation_def list_all_iff)
  have 5: "list_all (\<lambda>s. CHR ''#'' \<notin> set (simpleName s)) (simpleNotes r)"
    using nm noteNames_spelling(1)
    by (simp add: r convertToMusicalNotation_def generateSimpleNotes_def list_all_iff noteNameOf_def
        sharpSign_def)
  have 6: "list_all (\<lambda>p. CHR ''#'' \<in> set (noteNameOf p) \<longrightarrow>
                       replaceFirst (CHR ''#'') [CHR 0xE2, CHR 0x99, CHR 0xAF] (noteNameOf p) \<noteq> noteNameOf p)
           (rawPitchData r)"
    using nm noteNames_spelling(3) by (simp add: r convertToMusicalNotation_def list_all_iff)
  from 1 2 3 4 5 6 show ?thesis by blast
qed

text \<open>On \<open>arpeggio\<close> every note has a sharp: the simple notes are spelled with the
  sharp sign (a letter and the bytes E2 99 AF), the sheet-music notes and the chords with
  \<open>#\<close>.\<close>

theorem sharp_spelling_witness:
  "analyzeAudio arpeggio = Inr arpeggioResult \<and>
   map simpleName (simpleNotes arpeggioResult)
     = [[CHR ''F'', CHR 0xE2, CHR 0x99, CHR 0xAF], [CHR ''A'', CHR 0xE2, CHR 0x99, CHR 0xAF],
        [CHR ''C'', CHR 0xE2, CHR 0x99, CHR 0xAF], [CHR ''F'', CHR 0xE2, CHR 0x99, CHR 0xAF],
        [CHR ''A'', CHR 0xE2, CHR 0x99, CHR 0xAF], [CHR ''C'', CHR 0xE2, CHR 0x99, CHR 0xAF],
        [CHR ''F'', CHR 0xE2, CHR 0x99, CHR 0xAF], [CHR ''A'', CHR 0xE2, CHR 0x99, CHR 0xAF],
        [CHR ''C'', CHR 0xE2, CHR 0x99, CHR 0xAF]] \<and>
   map sheetPitch (sheetNotes (sheetMusicOf arpeggioResult))
     = [''F#'', ''A#'', ''C#'', ''F#'', ''A#'', ''C#'', ''F#'', ''A#'', ''C#''] \<and>
   map (\<lambda>c. (root c, chordNotes c)) (complexChords arpeggioResult)
     = [(''F#'', [''F#'', ''A#'', ''C#'']), (''F#'', [''C#'', ''F#'', ''A#''])] \<and>
   list_all (\<lambda>c. root c \<in> set (chordNotes c) \<and>
                 set (chordNotes c) \<subseteq> set (map noteNameOf (rawPitchData arpeggioResult)))
     (complexChords arpeggioResult) \<and>
   list_all (\<lambda>s. CHR ''#'' \<notin> set (simpleName s)) (simpleNotes arpeggioResult)"
proof -
  have n: "map noteNameOf (rawPitchData arpeggioResult)
      = [''F#'', ''A#'', ''C#'', ''F#'', ''A#'', ''C#'', ''F#'', ''A#'', ''C#'']"
    by (simp add: arpeggioResult_def convertToMusicalNotation_def arpeggioNotes_def
        noteNameOf_def arpeggio_note_fields)
  have s: "map simpleName (simpleNotes arpeggioResult)
      = map (\<lambda>p. replaceFirst (CHR ''#'') [CHR 0xE2, CHR 0x99, CHR 0xAF] (noteNameOf p)) (rawPitchData arpeggioResult)"
    and t: "map sheetPitch (sheetNotes (sheetMusicOf arpeggioResult)) = map noteNameOf (rawPitchData arpeggioResult)"
    and c: "list_all (\<lambda>c. root c \<in> set (chordNotes c) \<and>
                 set (chordNotes c) \<subseteq> set (map noteNameOf (rawPitchData arpeggioResult)))
     (complexChords arpeggioResult)"
    and h: "list_all (\<lambda>s. CHR ''#'' \<notin> set (simpleName s)) (simpleNotes arpeggioResult)"
    using sharp_spelling[OF arpeggio_result] by blast+
  have "map (\<lambda>p. replaceFirst (CHR ''#'') [CHR 0xE2, CHR 0x99, CHR 0xAF] (noteNameOf p)) (rawPitchData arpeggioResult)
      = map (replaceFirst (CHR ''#'') [CHR 0xE2, CHR 0x99, CHR 0xAF]) (map noteNameOf (rawPitchData arpeggioResult))"
    by (simp add: o_def)
  then have s': "map simpleName (simpleNotes arpeggioResult)
     = [''F'' @ [CHR 0xE2, CHR 0x99, CHR 0xAF], ''A'' @ [CHR 0xE2, CHR 0x99, CHR 0xAF], ''C'' @ [CHR 0xE2, CHR 0x99, CHR 0xAF],
        ''F'' @ [CHR 0xE2, CHR 0x99, CHR 0xAF], ''A'' @ [CHR 0xE2, CHR 0x99, CHR 0xAF], ''C'' @ [CHR 0xE2, CHR 0x99, CHR 0xAF],
        ''F'' @ [CHR 0xE2, CHR 0x99, CHR 0xAF], ''A'' @ [CHR 0xE2, CHR 0x99, CHR 0xAF], ''C'' @ [CHR 0xE2, CHR 0x99, CHR 0xAF]]"
    unfolding s n by simp
  have k: "map (\<lambda>c. (root c, chordNotes c)) (complexChords arpeggioResult)
     = map (\<lambda>(r, t, n, s, e). (r, n))
         (map (\<lambda>c. (root c, chordType c, chordNotes c, chordStart c, chordEnd c)) (detectChords arpeggioNotes))"
    by (simp add: arpeggioResult_def convertToMusicalNotation_def o_def)
  have k': "map (\<lambda>c. (root c, chordNotes c)) (complexChords arpeggioResult)
     = [(''F#'', [''F#'', ''A#'', ''C#'']), (''F#'', [''C#'', ''F#'', ''A#''])]"
    unfolding k arpeggio_chords by simp
  from s' t n k' c h arpeggio_result show ?thesis by simp
qed

section \<open>Malformed buffers\<close>

lemma jsadd_NaN [simp]: "jsadd x NaN = NaN"
  by (cases x) simp_all

lemma jsmul_NaN [simp]: "jsmul x NaN = NaN"
  by (cases x) simp_all

lemma foldl_jsadd_NaN_start: "foldl (\<lambda>s c. jsadd s (f c)) NaN cs = NaN"
  by (induction cs) simp_all

lemma foldl_jsadd_NaN:
  "c \<in> set cs \<Longrightarrow> f c = NaN \<Longrightarrow> foldl (\<lambda>s c. jsadd s (f c)) s0 cs = NaN"
proof (induction cs arbitrary: s0)
  case Nil
  then show ?case by simp
next
  case (Cons a cs)
  show ?case
  proof (cases "f a = NaN")
    case True
    then show ?thesis by (simp add: foldl_jsadd_NaN_start)
  next
    case False
    then have "c \<in> set cs" using Cons.prems by auto
    then show ?thesis using Cons.IH Cons.prems(2) by simp
  qed
qed

lemma length_convertToMono:
  "numberOfChannels b \<noteq> 1 \<Longrightarrow> length (convertToMono b) = bufferLength b"
  by (simp add: convertToMono_def Let_def)

lemma convertToMono_missing:
  assumes "numberOfChannels b \<noteq> 1" "i < bufferLength b"
    and "ch \<in> set (channelData b)" "length ch \<le> i"
  shows "convertToMono b ! i = NaN"
proof -
  have "elemAt ch i = NaN" using assms(4) by (simp add: elemAt_def)
  with assms(3) have "foldl (\<lambda>sum ch. jsadd sum (elemAt ch i)) (Num 0) (channelData b) = NaN"
    by (rule foldl_jsadd_NaN)
  then show ?thesis using assms(1,2) by (simp add: convertToMono_def Let_def)
qed

lemma autocorrelationAt_NaN:
  assumes "j < bufferSize" "elemAt w j = NaN" "lag \<le> j \<or> j < bufferSize - lag"
  shows "autocorrelationAt w lag = NaN"
proof -
  obtain i where i: "i < bufferSize - lag" "i = j \<or> i + lag = j"
  proof (cases "j < bufferSize - lag")
    case True
    then show ?thesis using that[of j] by simp
  next
    case False
    then have "lag \<le> j" using assms(3) by simp
    then have "j - lag < bufferSize - lag" "j - lag + lag = j" using assms(1) by simp_all
    then show ?thesis using that[of "j - lag"] by simp
  qed
  have "jsmul (elemAt w i) (elemAt w (i + lag)) = NaN"
    using i(2) assms(2) by auto
  moreover have "i \<in> set [0..<bufferSize - lag]" using i(1) by simp
  ultimately have "foldl (\<lambda>sum i. jsadd sum (jsmul (elemAt w i) (elemAt w (i + lag))))
      (Num 0) [0..<bufferSize - lag] = NaN"
    by (rule foldl_jsadd_NaN[rotated])
  then show ?thesis by (simp add: autocorrelationAt_def)
qed

lemma detectPitchAutocorrelation_NaN:
  assumes "length s = bufferSize" "NaN \<in> set s"
  shows "detectPitchAutocorrelation s = 0"
proof (rule detect_no_positive)
  fix lag assume l: "minSamples \<le> lag" "lag < maxSamples"
  obtain j where j: "j < bufferSize" "s ! j = NaN"
    using assms by (metis in_set_conv_nth)
  let ?w = "applyHannWindow s"
  have wj: "elemAt ?w j = NaN"
    using j assms(1) by (simp add: elemAt_def applyHannWindow_def)
  have lb: "lag < bufferSize" using l(2) maxSamples_le_bufferSize by simp
  have "lag \<le> j \<or> j < bufferSize - lag"
    using l(2) by (simp add: maxSamples_eq bufferSize_def) linarith
  with j(1) wj have "autocorrelationAt ?w lag = NaN" by (rule autocorrelationAt_NaN)
  then show "\<not> jsgt (storedCorrelation s lag) (Num 0)"
    using lb by (simp add: storedCorrelation_eq)
qed

lemma not_inRange_0: "\<not> inRange 0"
  by (simp add: inRange_def minFrequency_def)

text \<open>Claim C5, as the source has it. Neither \<open>analyzeAudio\<close> nor \<open>convertToMono\<close>
  compares the lengths of the channel arrays with the declared number of frames. For
  every result of \<open>analyzeAudio\<close> on a buffer with more or fewer than one channel: the
  down-mix has the declared number of frames; a frame that some channel array is too
  short for is \<open>NaN\<close> in the down-mix; an analysed segment that contains a \<open>NaN\<close> yields
  no pitch; and every entry of \<open>rawPitchData\<close> has the frequency estimated from a
  segment without \<open>NaN\<close>. So the frames that are missing, and the segments they fall
  into, are dropped silently.\<close>

theorem analyzeAudio_no_validation:
  assumes "analyzeAudio b = Inr r" and "numberOfChannels b \<noteq> 1"
  shows "length (convertToMono b) = bufferLength b \<and>
         (\<forall>i ch. i < bufferLength b \<and> ch \<in> set (channelData b) \<and> length ch \<le> i \<longrightarrow>
              convertToMono b ! i = NaN) \<and>
         (\<forall>s. s \<in> set (segmentAudio (convertToMono b)) \<and> NaN \<in> set s \<longrightarrow>
              detectPitchAutocorrelation s = 0) \<and>
         list_all (\<lambda>p. \<exists>s \<in> set (segmentAudio (convertToMono b)).
                         NaN \<notin> set s \<and> frequency p = detectPitchAutocorrelation s)
           (rawPitchData r)"
proof -
  let ?segs = "segmentAudio (convertToMono b)"
  have 1: "length (convertToMono b) = bufferLength b"
    using assms(2) by (rule length_convertToMono)
  have 2: "\<forall>i ch. i < bufferLength b \<and> ch \<in> set (channelData b) \<and> length ch \<le> i \<longrightarrow>
              convertToMono b ! i = NaN"
    using convertToMono_missing[OF assms(2)] by blast
  have 3: "\<forall>s. s \<in> set ?segs \<and> NaN \<in> set s \<longrightarrow> detectPitchAutocorrelation s = 0"
    using segmentAudio_lengths detectPitchAutocorrelation_NaN by blast
  have r: "rawPitchData r = consolidateNotes (pitchesFrom 0 ?segs)"
    using assms(1) by (auto simp: analyzeAudio_def Let_def convertToMusicalNotation_def detectPitches_def)
  have 4: "list_all (\<lambda>p. \<exists>s \<in> set ?segs. NaN \<notin> set s \<and> frequency p = detectPitchAutocorrelation s)
           (rawPitchData r)"
    unfolding r list_all_iff
  proof
    fix y assume "y \<in> set (consolidateNotes (pitchesFrom 0 ?segs))"
    then have "frequency y \<in> set (map frequency (pitchesFrom 0 ?segs))"
      by (rule frequency_consolidateNotes)
    then have "frequency y \<in> set (filter inRange (map detectPitchAutocorrelation ?segs))"
      by (simp only: frequency_pitchesFrom)
    then obtain s where s: "s \<in> set ?segs" "frequency y = detectPitchAutocorrelation s"
      "inRange (detectPitchAutocorrelation s)" by auto
    have "NaN \<notin> set s"
    proof
      assume "NaN \<in> set s"
      then have "detectPitchAutocorrelation s = 0" using 3 s(1) by blast
      then show False using s(3) not_inRange_0 by simp
    qed
    then show "\<exists>s \<in> set ?segs. NaN \<notin> set s \<and> frequency y = detectPitchAutocorrelation s"
      using s(1,2) by blast
  qed
  from 1 2 3 4 show ?thesis by blast
qed

lemma segmentCount_8193: "segmentCount 0 8193 = 3"
  by (simp add: segmentCount_def bufferSize_def)

lemma segments_of_8193:
  assumes "length xs = 8193"
  shows "segmentAudio xs =
     [take bufferSize xs, take bufferSize (drop 2048 xs), take bufferSize (drop 4096 xs)]"
proof -
  have "[0..<3] = [0, Suc 0, 2]" by (simp add: upt_rec)
  then show ?thesis
    by (simp add: segmentAudio_eq assms segmentCount_8193) (simp add: bufferSize_def)
qed

lemma segments_of_6145:
  assumes "length xs = 6145"
  shows "segmentAudio xs = [take bufferSize xs, take bufferSize (drop 2048 xs)]"
proof -
  have "[0..<2] = [0, Suc 0]" by (simp add: upt_rec)
  then show ?thesis
    by (simp add: segmentAudio_eq assms segmentCount_6145) (simp add: bufferSize_def)
qed

text \<open>The down-mix of two channels that hold the impulses of \<open>heldNote\<close>, the second
  one with \<open>m\<close> samples only: the frames from \<open>m\<close> on are \<open>NaN\<close>, the others are the
  impulses again.\<close>

lemma stereo_nth:
  assumes "i < n" "m \<le> n"
  shows "convertToMono \<lparr>channelData = [impulses n [3000, 3100], impulses m [3000, 3100]],
                         bufferLength = n\<rparr> ! i =
     (if i < m then (if i = 3000 \<or> i = 3100 then Num 1 else Num 0) else NaN)"
  using assms
  by (simp add: convertToMono_def numberOfChannels_def elemAt_def length_impulses impulses_nth)

lemma stereo_length:
  "length (convertToMono \<lparr>channelData = [impulses n [3000, 3100], impulses m [3000, 3100]],
                           bufferLength = n\<rparr>) = n"
  by (simp add: convertToMono_def numberOfChannels_def)

lemma stereo_segment:
  assumes "k + bufferSize \<le> m" "m \<le> n" and that: "k + bufferSize \<le> 6145"
  shows "take bufferSize (drop k (convertToMono
           \<lparr>channelData = [impulses n [3000, 3100], impulses m [3000, 3100]], bufferLength = n\<rparr>))
       = take bufferSize (drop k (impulses 6145 [3000, 3100]))"
proof (rule nth_equalityI)
  let ?mono = "convertToMono
           \<lparr>channelData = [impulses n [3000, 3100], impulses m [3000, 3100]], bufferLength = n\<rparr>"
  show "length (take bufferSize (drop k ?mono))
      = length (take bufferSize (drop k (impulses 6145 [3000, 3100])))"
    using assms that by (simp add: stereo_length length_impulses)
next
  let ?mono = "convertToMono
           \<lparr>channelData = [impulses n [3000, 3100], impulses m [3000, 3100]], bufferLength = n\<rparr>"
  fix i assume "i < length (take bufferSize (drop k ?mono))"
  then have i: "i < bufferSize" by simp
  then have "k + i < m" "k + i < n" "k + i < 6145" using assms that by simp_all
  then show "take bufferSize (drop k ?mono) ! i
      = take bufferSize (drop k (impulses 6145 [3000, 3100])) ! i"
    using i assms by (simp add: stereo_length length_impulses stereo_nth impulses_nth)
qed

lemma stereo_NaN_segment:
  assumes "k + bufferSize \<le> n" "m \<le> n" "k \<le> m" "m < k + bufferSize"
  shows "detectPitchAutocorrelation (take bufferSize (drop k (convertToMono
           \<lparr>channelData = [impulses n [3000, 3100], impulses m [3000, 3100]], bufferLength = n\<rparr>)))
       = 0"
proof (rule detectPitchAutocorrelation_NaN)
  let ?mono = "convertToMono
           \<lparr>channelData = [impulses n [3000, 3100], impulses m [3000, 3100]], bufferLength = n\<rparr>"
  let ?s = "take bufferSize (drop k ?mono)"
  show len: "length ?s = bufferSize" using assms by (simp add: stereo_length)
  have "m - k < bufferSize" using assms by linarith
  moreover have "k + (m - k) = m" using assms by simp
  ultimately have "?s ! (m - k) = ?mono ! m" using assms by (simp add: stereo_length)
  also have "\<dots> = NaN" using assms by (simp add: stereo_nth)
  finally have "?s ! (m - k) = NaN" .
  moreover have "m - k < length ?s" unfolding len using assms by linarith
  ultimately show "NaN \<in> set ?s" by (metis nth_mem)
qed

lemma mismatched_length: "length (convertToMono mismatched) = 8193"
  unfolding mismatched_def by (rule stereo_length)

lemma mismatched_segments:
  "map detectPitchAutocorrelation (segmentAudio (convertToMono mismatched)) = [441, 441, 0]"
proof -
  have 0: "take bufferSize (convertToMono mismatched) = take bufferSize (impulses 6145 [3000, 3100])"
    using stereo_segment[of 0 7000 8193] by (simp add: mismatched_def bufferSize_def)
  have 1: "take bufferSize (drop 2048 (convertToMono mismatched))
      = take bufferSize (drop 2048 (impulses 6145 [3000, 3100]))"
    using stereo_segment[of 2048 7000 8193] by (simp add: mismatched_def bufferSize_def)
  have 2: "detectPitchAutocorrelation (take bufferSize (drop 4096 (convertToMono mismatched))) = 0"
    using stereo_NaN_segment[of 4096 8193 7000] by (simp add: mismatched_def bufferSize_def)
  show ?thesis
    unfolding segments_of_8193[OF mismatched_length]
    by (simp add: 0 1 2 heldNote_segment0 heldNote_segment1)
qed

lemma mismatched_result: "analyzeAudio mismatched = Inr heldNoteResult"
proof -
  have s: "segmentAudio (convertToMono mismatched) =
     [take bufferSize (convertToMono mismatched),
      take bufferSize (drop 2048 (convertToMono mismatched)),
      take bufferSize (drop 4096 (convertToMono mismatched))]"
    by (rule segments_of_8193[OF mismatched_length])
  have f: "detectPitchAutocorrelation (take bufferSize (convertToMono mismatched)) = 441"
    "detectPitchAutocorrelation (take bufferSize (drop 2048 (convertToMono mismatched))) = 441"
    "detectPitchAutocorrelation (take bufferSize (drop 4096 (convertToMono mismatched))) = 0"
    using mismatched_segments unfolding s by simp_all
  have "pitchesFrom 0 (segmentAudio (convertToMono mismatched)) =
     [\<lparr>frequency = 441, pitchNote = frequencyToNote 441, startTime = 0, endTime = 4096 / 44100\<rparr>,
      \<lparr>frequency = 441, pitchNote = frequencyToNote 441, startTime = 2048 / 44100,
        endTime = 6144 / 44100\<rparr>]"
    unfolding s
    by (simp add: f Let_def minFrequency_def maxFrequency_def)
       (simp add: segmentDuration_def bufferSize_def sampleRate_def)
  then have "detectPitches (segmentAudio (convertToMono mismatched)) =
     [\<lparr>frequency = 441, pitchNote = frequencyToNote 441, startTime = 0, endTime = 6144 / 44100\<rparr>]"
    unfolding detectPitches_def by simp
  then show ?thesis by (simp add: analyzeAudio_def Let_def heldNoteResult_def)
qed

text \<open>The buffer \<open>mismatched\<close>: the frames from 7000 on are missing from the second
  channel. The first two segments are complete and give 441 Hz each, the third one holds
  missing frames and gives no pitch, and the result is the one note of \<open>heldNote\<close>, a
  recording that ends after the second segment.\<close>

theorem analyzeAudio_no_validation_witness:
  "map length (channelData mismatched) = [8193, 7000] \<and> bufferLength mismatched = 8193 \<and>
   numberOfChannels mismatched \<noteq> 1 \<and>
   analyzeAudio mismatched = Inr heldNoteResult \<and>
   length (convertToMono mismatched) = 8193 \<and> convertToMono mismatched ! 7000 = NaN \<and>
   map detectPitchAutocorrelation (segmentAudio (convertToMono mismatched)) = [441, 441, 0] \<and>
   map frequency (rawPitchData heldNoteResult) = [441] \<and>
   list_all (\<lambda>p. \<exists>s \<in> set (segmentAudio (convertToMono mismatched)).
                   NaN \<notin> set s \<and> frequency p = detectPitchAutocorrelation s)
     (rawPitchData heldNoteResult)"
proof -
  have n: "numberOfChannels mismatched \<noteq> 1" by (simp add: numberOfChannels_def mismatched_def)
  have c: "impulses 7000 [3000, 3100] \<in> set (channelData mismatched)" by (simp add: mismatched_def)
  have b: "bufferLength mismatched = 8193" by (simp add: mismatched_def)
  from analyzeAudio_no_validation[OF mismatched_result n] have
    l: "length (convertToMono mismatched) = bufferLength mismatched"
    and m: "\<forall>i ch. i < bufferLength mismatched \<and> ch \<in> set (channelData mismatched) \<and> length ch \<le> i \<longrightarrow>
          convertToMono mismatched ! i = NaN"
    and a: "list_all (\<lambda>p. \<exists>s \<in> set (segmentAudio (convertToMono mismatched)).
                   NaN \<notin> set s \<and> frequency p = detectPitchAutocorrelation s)
     (rawPitchData heldNoteResult)" by blast+
  have "7000 < bufferLength mismatched \<and> impulses 7000 [3000, 3100] \<in> set (channelData mismatched)
      \<and> length (impulses 7000 [3000, 3100]) \<le> 7000"
    using c b by (simp add: length_impulses)
  with m have 7000: "convertToMono mismatched ! 7000 = NaN" by blast
  have f: "map frequency (rawPitchData heldNoteResult) = [441]"
    by (simp add: heldNoteResult_def convertToMusicalNotation_def)
  have len: "map length (channelData mismatched) = [8193, 7000]"
    by (simp add: mismatched_def length_impulses)
  from len b n mismatched_result l 7000 mismatched_segments f a show ?thesis by simp
qed

lemma shortChannel_segments:
  "map detectPitchAutocorrelation (segmentAudio (convertToMono shortChannel)) = [441, 0]"
proof -
  have len: "length (convertToMono shortChannel) = 6145"
    unfolding shortChannel_def by (rule stereo_length)
  have 0: "take bufferSize (convertToMono shortChannel) = take bufferSize (impulses 6145 [3000, 3100])"
    using stereo_segment[of 0 6000 6145] by (simp add: shortChannel_def bufferSize_def)
  have 1: "detectPitchAutocorrelation (take bufferSize (drop 2048 (convertToMono shortChannel))) = 0"
    using stereo_NaN_segment[of 2048 6145 6000] by (simp add: shortChannel_def bufferSize_def)
  show ?thesis
    unfolding segments_of_6145[OF len] by (simp add: 0 1 heldNote_segment0)
qed

text \<open>Claim C5 as the specification states it fails: on \<open>shortChannel\<close>, whose channel
  arrays have 6145 and 6000 samples, \<open>analyzeAudio\<close> raises nothing and returns a
  well-formed result with one note, taken from the first segment; the second segment
  reaches into the missing frames and is silently dropped.\<close>

theorem analyzeAudio_accepts_mismatched_channels:
  "map length (channelData shortChannel) = [6145, 6000] \<and>
   analyzeAudio shortChannel = Inr (convertToMusicalNotation
     [\<lparr>frequency = 441, pitchNote = frequencyToNote 441, startTime = 0, endTime = 4096 / 44100\<rparr>])"
proof -
  have len: "length (convertToMono shortChannel) = 6145"
    unfolding shortChannel_def by (rule stereo_length)
  have s: "segmentAudio (convertToMono shortChannel) =
     [take bufferSize (convertToMono shortChannel),
      take bufferSize (drop 2048 (convertToMono shortChannel))]"
    by (rule segments_of_6145[OF len])
  have f: "detectPitchAutocorrelation (take bufferSize (convertToMono shortChannel)) = 441"
    "detectPitchAutocorrelation (take bufferSize (drop 2048 (convertToMono shortChannel))) = 0"
    using shortChannel_segments unfolding s by simp_all
  have "pitchesFrom 0 (segmentAudio (convertToMono shortChannel)) =
     [\<lparr>frequency = 441, pitchNote = frequencyToNote 441, startTime = 0, endTime = 4096 / 44100\<rparr>]"
    unfolding s
    by (simp add: f Let_def minFrequency_def maxFrequency_def)
       (simp add: segmentDuration_def bufferSize_def sampleRate_def)
  then have "analyzeAudio shortChannel = Inr (convertToMusicalNotation
     [\<lparr>frequency = 441, pitchNote = frequencyToNote 441, startTime = 0, endTime = 4096 / 44100\<rparr>])"
    by (simp add: analyzeAudio_def Let_def detectPitches_def)
  then show ?thesis by (simp add: shortChannel_def length_impulses)
qed

end
